theory Spec2Isabelle
  imports Complex_Main
begin

section \<open>Dense matrices and the failures of the linear-algebra library\<close>

text \<open>
  The routines of namespace \<open>polymath::oc\<close> (file \<open>polymath.cpp\<close>) work on
  \<open>Eigen::MatrixXd\<close> values: dense matrices of doubles whose numbers of rows and columns
  are known at run time only. Doubles are idealised as real numbers throughout (no rounding,
  no infinities, no NaN). A vector (\<open>Eigen::VectorXd\<close>) is a matrix with one column.

  Eigen checks the shapes of the operands of a product, a sum or an assignment and the range
  of an index with assertions; a failed assertion aborts the program. The model returns such
  a failure as an error value.
\<close>

datatype error = DimMismatch | IndexOutOfRange

definition bind_res :: "error + 'a \<Rightarrow> ('a \<Rightarrow> error + 'b) \<Rightarrow> error + 'b" where
  "bind_res r f = (case r of Inl e \<Rightarrow> Inl e | Inr x \<Rightarrow> f x)"

record matrix =
  nrows :: nat
  ncols :: nat
  elems :: "real list list"

text \<open>The matrix with \<open>r\<close> rows and \<open>c\<close> columns whose entry \<open>(i, j)\<close> is \<open>f i j\<close>.\<close>

definition mk_mat :: "nat \<Rightarrow> nat \<Rightarrow> (nat \<Rightarrow> nat \<Rightarrow> real) \<Rightarrow> matrix" where
  "mk_mat r c f = \<lparr>nrows = r, ncols = c, elems = map (\<lambda>i. map (f i) [0..<c]) [0..<r]\<rparr>"

definition coeff :: "matrix \<Rightarrow> nat \<Rightarrow> nat \<Rightarrow> real" where
  "coeff M i j = elems M ! i ! j"

text \<open>
  A value of the matrix type holds exactly \<open>nrows\<close> rows of \<open>ncols\<close> entries each;
  \<open>is_mat r c M\<close> says so of an \<open>r\<close> by \<open>c\<close> matrix.
\<close>

definition is_mat :: "nat \<Rightarrow> nat \<Rightarrow> matrix \<Rightarrow> bool" where
  "is_mat r c M =
     (nrows M = r \<and> ncols M = c \<and> length (elems M) = r \<and>
      list_all (\<lambda>row. length row = c) (elems M))"

text \<open>A matrix written row by row.\<close>

definition mat_of_rows :: "real list list \<Rightarrow> matrix" where
  "mat_of_rows rows = \<lparr>nrows = length rows, ncols = length (hd rows), elems = rows\<rparr>"

text \<open>\<open>M(i, j)\<close>: coefficient access with Eigen's range assertion.\<close>

definition mat_at :: "matrix \<Rightarrow> nat \<Rightarrow> nat \<Rightarrow> error + real" where
  "mat_at M i j = (if i < nrows M \<and> j < ncols M then Inr (coeff M i j) else Inl IndexOutOfRange)"

definition mat_zero :: "nat \<Rightarrow> nat \<Rightarrow> matrix" where
  "mat_zero r c = mk_mat r c (\<lambda>i j. 0)"

definition mat_identity :: "nat \<Rightarrow> nat \<Rightarrow> matrix" where
  "mat_identity r c = mk_mat r c (\<lambda>i j. if i = j then 1 else 0)"

text \<open>\<open>Eigen::MatrixXd()\<close>: the matrix with no rows and no columns.\<close>

definition mat_empty :: matrix where
  "mat_empty = mk_mat 0 0 (\<lambda>i j. 0)"

definition mat_transpose :: "matrix \<Rightarrow> matrix" where
  "mat_transpose M = mk_mat (ncols M) (nrows M) (\<lambda>i j. coeff M j i)"

definition mat_scale :: "real \<Rightarrow> matrix \<Rightarrow> matrix" where
  "mat_scale s M = mk_mat (nrows M) (ncols M) (\<lambda>i j. s * coeff M i j)"

definition mat_neg :: "matrix \<Rightarrow> matrix" where
  "mat_neg M = mk_mat (nrows M) (ncols M) (\<lambda>i j. - coeff M i j)"

text \<open>Sum, difference and product of two matrices whose shapes fit.\<close>

definition madd :: "matrix \<Rightarrow> matrix \<Rightarrow> matrix" where
  "madd A B = mk_mat (nrows A) (ncols A) (\<lambda>i j. coeff A i j + coeff B i j)"

definition msub :: "matrix \<Rightarrow> matrix \<Rightarrow> matrix" where
  "msub A B = mk_mat (nrows A) (ncols A) (\<lambda>i j. coeff A i j - coeff B i j)"

definition mmul :: "matrix \<Rightarrow> matrix \<Rightarrow> matrix" where
  "mmul A B = mk_mat (nrows A) (ncols B) (\<lambda>i j. \<Sum>k<ncols A. coeff A i k * coeff B k j)"

text \<open>The operators \<open>+\<close>, \<open>-\<close> and \<open>*\<close> of Eigen, which assert that the shapes fit.\<close>

definition mat_add :: "matrix \<Rightarrow> matrix \<Rightarrow> error + matrix" where
  "mat_add A B =
     (if nrows A = nrows B \<and> ncols A = ncols B then Inr (madd A B) else Inl DimMismatch)"

definition mat_sub :: "matrix \<Rightarrow> matrix \<Rightarrow> error + matrix" where
  "mat_sub A B =
     (if nrows A = nrows B \<and> ncols A = ncols B then Inr (msub A B) else Inl DimMismatch)"

definition mat_mul :: "matrix \<Rightarrow> matrix \<Rightarrow> error + matrix" where
  "mat_mul A B = (if ncols A = nrows B then Inr (mmul A B) else Inl DimMismatch)"

text \<open>\<open>M.col(j)\<close> read, and \<open>M.col(j) = v\<close> written.\<close>

definition mat_col :: "matrix \<Rightarrow> nat \<Rightarrow> error + matrix" where
  "mat_col M j =
     (if j < ncols M then Inr (mk_mat (nrows M) 1 (\<lambda>i _. coeff M i j))
      else Inl IndexOutOfRange)"

definition mat_set_col :: "matrix \<Rightarrow> nat \<Rightarrow> matrix \<Rightarrow> error + matrix" where
  "mat_set_col M j v =
     (if \<not> j < ncols M then Inl IndexOutOfRange
      else if nrows v = nrows M \<and> ncols v = 1
      then Inr (mk_mat (nrows M) (ncols M) (\<lambda>i l. if l = j then coeff v i 0 else coeff M i l))
      else Inl DimMismatch)"

text \<open>\<open>M.block(i, j, p, q)\<close>: the \<open>p\<close> by \<open>q\<close> block whose top left corner is \<open>(i, j)\<close>.\<close>

definition mat_block :: "matrix \<Rightarrow> nat \<Rightarrow> nat \<Rightarrow> nat \<Rightarrow> nat \<Rightarrow> error + matrix" where
  "mat_block M i j p q =
     (if i + p \<le> nrows M \<and> j + q \<le> ncols M
      then Inr (mk_mat p q (\<lambda>a b. coeff M (i + a) (j + b)))
      else Inl IndexOutOfRange)"

text \<open>\<open>M.trace()\<close> sums the main diagonal; \<open>M.norm()\<close> is the Frobenius norm.\<close>

definition mat_trace :: "matrix \<Rightarrow> real" where
  "mat_trace M = (\<Sum>i<min (nrows M) (ncols M). coeff M i i)"

definition mat_norm :: "matrix \<Rightarrow> real" where
  "mat_norm M = sqrt (\<Sum>i<nrows M. \<Sum>j<ncols M. (coeff M i j)\<^sup>2)"

text \<open>\<open>v.asDiagonal()\<close> for a vector given by its entries.\<close>

definition as_diagonal :: "real list \<Rightarrow> matrix" where
  "as_diagonal v = mk_mat (length v) (length v) (\<lambda>i j. if i = j then v ! i else 0)"

section \<open>The decompositions of the library\<close>

text \<open>
  The source calls five solvers of Eigen whose code is not part of the repository. They are
  parameters of the model, collected in one record; what a theorem needs of them is stated
  as a hypothesis on the record.
  \<^item> \<open>real_schur A\<close>: \<open>matrixT()\<close> and \<open>matrixU()\<close> of \<open>Eigen::RealSchur\<close>;
  \<^item> \<open>lu_solve M b\<close>: \<open>M.partialPivLu().solve(b)\<close>;
  \<^item> \<open>jacobi_svd M\<close>: \<open>matrixU()\<close>, \<open>singularValues()\<close> and \<open>matrixV()\<close> of
    \<open>Eigen::JacobiSVD\<close> with full unitaries;
  \<^item> \<open>eigenvalues M\<close>: \<open>eigenvalues()\<close> of \<open>Eigen::EigenSolver\<close>;
  \<^item> \<open>poly_roots p\<close>: \<open>roots()\<close> of \<open>Eigen::PolynomialSolver\<close> for the polynomial with
    the coefficients \<open>p\<close>, lowest degree first.
\<close>

record eigen_lib =
  real_schur :: "matrix \<Rightarrow> matrix \<times> matrix"
  lu_solve :: "matrix \<Rightarrow> matrix \<Rightarrow> matrix"
  jacobi_svd :: "matrix \<Rightarrow> matrix \<times> real list \<times> matrix"
  eigenvalues :: "matrix \<Rightarrow> complex list"
  poly_roots :: "real list \<Rightarrow> complex list"

text \<open>The solvers for square matrices assert that their argument is square.\<close>

definition schur_of :: "eigen_lib \<Rightarrow> matrix \<Rightarrow> error + matrix \<times> matrix" where
  "schur_of L A = (if nrows A = ncols A then Inr (real_schur L A) else Inl DimMismatch)"

definition eigenvalues_of :: "eigen_lib \<Rightarrow> matrix \<Rightarrow> error + complex list" where
  "eigenvalues_of L A = (if nrows A = ncols A then Inr (eigenvalues L A) else Inl DimMismatch)"

definition lu_solve_of :: "eigen_lib \<Rightarrow> matrix \<Rightarrow> matrix \<Rightarrow> error + matrix" where
  "lu_solve_of L M b =
     (if nrows M = ncols M \<and> nrows b = nrows M then Inr (lu_solve L M b) else Inl DimMismatch)"

section \<open>Moore-Penrose pseudo-inverse\<close>

text \<open>
  The loop of \<open>pinv\<close> runs \<open>i\<close> over the columns of the argument and reads and writes entry
  \<open>i\<close> of the vector of singular values.
\<close>

function pinv_loop :: "real list \<Rightarrow> real list \<Rightarrow> nat \<Rightarrow> nat \<Rightarrow> error + real list" where
  "pinv_loop singular_values singular_values_inv i cols =
     (if i < cols then
        (if i < length singular_values \<and> i < length singular_values_inv then
           pinv_loop singular_values
             (singular_values_inv
                [i := (if singular_values ! i > 1 / 1000000 then 1 / (singular_values ! i) else 0)])
             (i + 1) cols
         else Inl IndexOutOfRange)
      else Inr singular_values_inv)"
  by pat_completeness auto
termination
  by (relation "measure (\<lambda>(sv, svi, i, cols). cols - i)") auto

declare pinv_loop.simps [simp del]

definition pinv :: "eigen_lib \<Rightarrow> matrix \<Rightarrow> error + matrix" where
  "pinv L mat =
     (case jacobi_svd L mat of (U, singular_values, V) \<Rightarrow>
        bind_res (pinv_loop singular_values singular_values 0 (ncols mat))
          (\<lambda>singular_values_inv.
             bind_res (mat_mul V (as_diagonal singular_values_inv))
               (\<lambda>VD. mat_mul VD (mat_transpose U))))"

section \<open>Lyapunov equation\<close>

text \<open>
  The loop of \<open>lyapunov\<close> runs \<open>i\<close> from \<open>m - 2\<close> down to \<open>0\<close>; the counter of the
  model is \<open>i + 1\<close>, so that the loop ends when it is zero.
\<close>

fun lyapunov_loop ::
  "eigen_lib \<Rightarrow> matrix \<Rightarrow> matrix \<Rightarrow> matrix \<Rightarrow> nat \<Rightarrow> nat \<Rightarrow> matrix \<Rightarrow> error + matrix" where
  "lyapunov_loop L T Q1 E m 0 X = Inr X"
| "lyapunov_loop L T Q1 E m (Suc i) X =
     bind_res (mat_col Q1 i) (\<lambda>q.
     bind_res (mat_block X 0 (i + 1) m (m - (i + 1))) (\<lambda>Xb.
     bind_res (mat_block T i (i + 1) 1 (m - (i + 1))) (\<lambda>Tb.
     bind_res (mat_mul Xb (mat_transpose Tb)) (\<lambda>p.
     bind_res (mat_sub q p) (\<lambda>v.
     bind_res (mat_at T i i) (\<lambda>t.
     bind_res (mat_add T (mat_scale t E)) (\<lambda>M.
     bind_res (lu_solve_of L M v) (\<lambda>x.
     bind_res (mat_set_col X i x) (\<lambda>X'.
     lyapunov_loop L T Q1 E m i X')))))))))"

definition lyapunov :: "eigen_lib \<Rightarrow> matrix \<Rightarrow> matrix \<Rightarrow> error + matrix" where
  "lyapunov L A Q =
     (let m = nrows Q in
      bind_res (schur_of L A) (\<lambda>(T, U).
      bind_res (mat_mul (mat_transpose U) Q) (\<lambda>UtQ.
      bind_res (mat_mul UtQ U) (\<lambda>Q1.
      let X = mat_zero m m; E = mat_identity m m in
      if m = 0 then Inl IndexOutOfRange
      else
        bind_res (mat_at T (m - 1) (m - 1)) (\<lambda>t.
        bind_res (mat_add T (mat_scale t E)) (\<lambda>M.
        bind_res (mat_col Q1 (m - 1)) (\<lambda>q.
        bind_res (lu_solve_of L M q) (\<lambda>x.
        bind_res (mat_set_col X (m - 1) x) (\<lambda>X.
        bind_res (lyapunov_loop L T Q1 E m (m - 1) X) (\<lambda>X.
        bind_res (mat_mul U X) (\<lambda>UX.
        mat_mul UX (mat_transpose U))))))))))))"

section \<open>Exact line search\<close>

text \<open>
  \<open>Eigen::poly_eval\<close> evaluates a polynomial given by its coefficients, lowest degree
  first: by Horner's rule where \<open>x\<^sup>2 \<le> 1\<close>, and on the reversed polynomial at \<open>1 / x\<close>
  elsewhere.
\<close>

definition poly_eval_horner :: "real list \<Rightarrow> real \<Rightarrow> real" where
  "poly_eval_horner poly x = foldl (\<lambda>val p. val * x + p) (last poly) (rev (butlast poly))"

definition poly_eval :: "real list \<Rightarrow> real \<Rightarrow> real" where
  "poly_eval poly x =
     (if x\<^sup>2 \<le> 1 then poly_eval_horner poly x
      else (let inv_x = 1 / x;
                val = foldl (\<lambda>val p. val * inv_x + p) (hd poly) (tl poly)
            in x ^ (length poly - 1) * val))"

text \<open>
  \<open>Eigen::poly_eval\<close> is a template \<open>T poly_eval(const Polynomials& poly, const T& x)\<close>:
  the accumulator \<open>val\<close>, \<open>inv_x = T(1) / x\<close> and the result have the type of \<open>x\<close>. At an
  argument of type \<open>int\<close> the division is the integer division of C++, and each assignment
  \<open>val = val * inv_x + poly[i]\<close> converts a double to \<open>int\<close>, which truncates toward zero.
  As doubles are taken for reals, \<open>int\<close> is taken for the integers: a conversion of a
  double outside the range of \<open>int\<close> has no defined result in C++. At \<open>x = 2\<close>, where
  \<open>inv_x = 0\<close>, only the last conversion, that of the leading coefficient, reaches the
  result.
\<close>

definition int_of_double :: "real \<Rightarrow> int" where
  "int_of_double x = (if 0 \<le> x then \<lfloor>x\<rfloor> else \<lceil>x\<rceil>)"

definition int_div :: "int \<Rightarrow> int \<Rightarrow> int" where
  "int_div x y = sgn x * sgn y * (\<bar>x\<bar> div \<bar>y\<bar>)"

definition poly_eval_horner_int :: "real list \<Rightarrow> int \<Rightarrow> int" where
  "poly_eval_horner_int poly x =
     foldl (\<lambda>val p. int_of_double (real_of_int (val * x) + p)) (int_of_double (last poly))
       (rev (butlast poly))"

definition poly_eval_int :: "real list \<Rightarrow> int \<Rightarrow> int" where
  "poly_eval_int poly x =
     (if x\<^sup>2 \<le> 1 then poly_eval_horner_int poly x
      else (let inv_x = int_div 1 x;
                val = foldl (\<lambda>val p. int_of_double (real_of_int (val * inv_x) + p))
                        (int_of_double (hd poly)) (tl poly)
            in x ^ (length poly - 1) * val))"

text \<open>One pass of the loop over the roots: the state is \<open>(argmin, minimum)\<close>.\<close>

definition line_search_visit :: "real list \<Rightarrow> real \<times> real \<Rightarrow> complex \<Rightarrow> real \<times> real" where
  "line_search_visit poly st r =
     (case st of (argmin, minimum) \<Rightarrow>
        (let root = Re r in
         if root \<ge> 1 / 100000 \<and> root \<le> 2 then
           (let candidate = poly_eval poly root in
            if candidate < minimum then (root, poly_eval poly root) else (argmin, minimum))
         else (argmin, minimum)))"

text \<open>
  The value at the lower end is \<open>Eigen::poly_eval(poly, 1e-5)\<close>, at a double; the value at the
  upper end is \<open>Eigen::poly_eval(poly, 2)\<close>, at the \<open>int\<close> literal \<open>2\<close>. All other
  evaluations are at doubles.
\<close>

definition line_search_care :: "eigen_lib \<Rightarrow> real \<Rightarrow> real \<Rightarrow> real \<Rightarrow> real" where
  "line_search_care L a b c =
     (let poly_derivative0 = [- 2 * a, 2 * (a - 2 * b), 6 * b, 4 * c];
          poly0 = [a, - 2 * a, a - 2 * b, 2 * b, c];
          poly_derivative = map (\<lambda>p. (1 / (4 * c)) * p) poly_derivative0;
          poly = map (\<lambda>p. (1 / c) * p) poly0;
          roots = poly_roots L poly_derivative;
          lb_value = poly_eval poly (1 / 100000);
          ub_value = real_of_int (poly_eval_int poly 2);
          argmin = (if lb_value < ub_value then 1 / 100000 else 2);
          minimum = poly_eval poly argmin
      in fst (foldl (line_search_visit poly) (argmin, minimum) roots))"

section \<open>Newton iteration for the algebraic Riccati equation\<close>

text \<open>What the routines print, in the order of printing.\<close>

datatype diag =
    Init_X0 "complex list"
  | Err_step real real
  | Care_took nat
  | Care_not_solved real
  | Positivity_failed
  | Show_matrix string matrix

definition tol :: real where
  "tol = 1 / 100000"

definition kmax :: nat where
  "kmax = 20"

text \<open>\<open>std::numeric_limits<double>::max()\<close>.\<close>

definition dbl_max :: real where
  "dbl_max = (2 - 1 / 2 ^ 52) * 2 ^ 1023"

text \<open>The residual \<open>RX = C + X * A + A.transpose() * X - (X * B) * X\<close>.\<close>

definition care_residual :: "matrix \<Rightarrow> matrix \<Rightarrow> matrix \<Rightarrow> matrix \<Rightarrow> error + matrix" where
  "care_residual A B C X =
     bind_res (mat_mul X A) (\<lambda>XA.
     bind_res (mat_add C XA) (\<lambda>S1.
     bind_res (mat_mul (mat_transpose A) X) (\<lambda>AtX.
     bind_res (mat_add S1 AtX) (\<lambda>S2.
     bind_res (mat_mul X B) (\<lambda>XB.
     bind_res (mat_mul XB X) (\<lambda>XBX.
     mat_sub S2 XBX))))))"

text \<open>The Newton direction \<open>H = lyapunov((A - B * X).transpose(), -RX)\<close>.\<close>

definition newton_direction ::
  "eigen_lib \<Rightarrow> matrix \<Rightarrow> matrix \<Rightarrow> matrix \<Rightarrow> matrix \<Rightarrow> error + matrix" where
  "newton_direction L A B X RX =
     bind_res (mat_mul B X) (\<lambda>BX.
     bind_res (mat_sub A BX) (\<lambda>ABX.
     lyapunov L (mat_transpose ABX) (mat_neg RX)))"

text \<open>The body of the loop: from the iterate \<open>X\<close> to the next iterate, \<open>err\<close> and \<open>tk\<close>.\<close>

definition newton_body ::
  "eigen_lib \<Rightarrow> matrix \<Rightarrow> matrix \<Rightarrow> matrix \<Rightarrow> matrix \<Rightarrow> error + matrix \<times> real \<times> real" where
  "newton_body L A B C X =
     bind_res (care_residual A B C X) (\<lambda>RX.
     bind_res (newton_direction L A B X RX) (\<lambda>H.
     bind_res (mat_mul H B) (\<lambda>HB.
     bind_res (mat_mul HB H) (\<lambda>V.
     bind_res (mat_mul RX RX) (\<lambda>RR.
     bind_res (mat_mul RX V) (\<lambda>RV.
     bind_res (mat_mul V V) (\<lambda>VV.
     let a = mat_trace RR; b = mat_trace RV; c = mat_trace VV;
         tk = line_search_care L a b c
     in bind_res (mat_add X (mat_scale tk H)) (\<lambda>X'.
        Inr (X', mat_norm RX, tk)))))))))"

function newton_loop ::
  "eigen_lib \<Rightarrow> matrix \<Rightarrow> matrix \<Rightarrow> matrix \<Rightarrow> matrix \<Rightarrow> real \<Rightarrow> nat \<Rightarrow> diag list \<Rightarrow>
     error + matrix \<times> real \<times> nat \<times> diag list" where
  "newton_loop L A B C X err k out =
     (if err > tol \<and> k < kmax then
        (case newton_body L A B C X of
           Inl e \<Rightarrow> Inl e
         | Inr (X', err', tk) \<Rightarrow>
             newton_loop L A B C X' err' (k + 1) (out @ [Err_step err' tk]))
      else Inr (X, err, k, out))"
  by pat_completeness auto
termination
  by (relation "measure (\<lambda>(L, A, B, C, X, err, k, out). kmax - k)") auto

declare newton_loop.simps [simp del]

definition newton_ls_care ::
  "eigen_lib \<Rightarrow> matrix \<Rightarrow> matrix \<Rightarrow> matrix \<Rightarrow> matrix \<Rightarrow> error + matrix \<times> diag list" where
  "newton_ls_care L A B C X0 =
     bind_res (mat_mul B X0) (\<lambda>BX0.
     bind_res (mat_sub A BX0) (\<lambda>ABX0.
     bind_res (eigenvalues_of L ABX0) (\<lambda>eig.
     bind_res (newton_loop L A B C X0 dbl_max 0 [Init_X0 eig]) (\<lambda>(X, err, k, out).
     Inr (X, out @ [Care_took k] @ (if k = kmax then [Care_not_solved err] else []))))))"

definition init_newton_care :: "eigen_lib \<Rightarrow> matrix \<Rightarrow> matrix \<Rightarrow> error + matrix" where
  "init_newton_care L A B =
     (let n = nrows A; tolerance = 1 / 10 ^ 12 in
      bind_res (schur_of L A) (\<lambda>(TA, U).
      bind_res (mat_mul (mat_transpose U) B) (\<lambda>TD.
      bind_res (eigenvalues_of L TA) (\<lambda>es.
      let eig_r = map Re es in
      if eig_r = [] then Inl IndexOutOfRange
      else
        (let b = - Min (set eig_r);
             b = max b 0 + 1 / 2;
             E = mat_identity n n in
         bind_res (mat_add TA (mat_scale b E)) (\<lambda>TAb.
         bind_res (mat_mul (mat_scale 2 TD) (mat_transpose TD)) (\<lambda>TT.
         bind_res (lyapunov L TAb TT) (\<lambda>Z.
         bind_res (pinv L Z) (\<lambda>pZ.
         bind_res (mat_mul (mat_transpose TD) pZ) (\<lambda>TpZ.
         bind_res (mat_mul TpZ (mat_transpose U)) (\<lambda>X.
         bind_res (mat_sub X (mat_transpose X)) (\<lambda>D.
         if mat_norm D > tolerance then
           bind_res (mat_mul (mat_transpose X) B) (\<lambda>XtB.
           bind_res (mat_mul XtB X) (\<lambda>XtBX.
           bind_res (mat_add XtBX (mat_scale (1 / 2) (mat_identity n n))) (\<lambda>M.
           bind_res (mat_mul B X) (\<lambda>BX.
           bind_res (mat_sub A BX) (\<lambda>ABX.
           lyapunov L (mat_transpose ABX) (mat_neg M))))))
         else Inr X))))))))))))"

definition care ::
  "eigen_lib \<Rightarrow> matrix \<Rightarrow> matrix \<Rightarrow> matrix \<Rightarrow> error + matrix \<times> diag list" where
  "care L A B C = bind_res (init_newton_care L A B) (\<lambda>X0. newton_ls_care L A B C X0)"

section \<open>Linear-quadratic regulator\<close>

record LinearSystem =
  F :: matrix
  G :: matrix

text \<open>
  The positivity check of \<open>lqr\<close>: whether an eigenvalue of \<open>Q - M * pinv(R) * M.transpose()\<close>
  has a negative real part.
\<close>

definition lqr_check :: "eigen_lib \<Rightarrow> matrix \<Rightarrow> matrix \<Rightarrow> matrix \<Rightarrow> error + bool" where
  "lqr_check L Q R M =
     bind_res (pinv L R) (\<lambda>pR.
     bind_res (mat_mul M pR) (\<lambda>MpR.
     bind_res (mat_mul MpR (mat_transpose M)) (\<lambda>MpRMt.
     bind_res (mat_sub Q MpRMt) (\<lambda>QR.
     bind_res (eigenvalues_of L QR) (\<lambda>ev.
     let values = map Re ev in Inr (list_ex (\<lambda>v. v < 0) values))))))"

text \<open>The synthesis of \<open>lqr\<close>, from \<open>formulate Ricatti equations\<close> to the end.\<close>

definition lqr_synthesis ::
  "eigen_lib \<Rightarrow> LinearSystem \<Rightarrow> matrix \<Rightarrow> matrix \<Rightarrow> matrix \<Rightarrow> error + matrix \<times> diag list" where
  "lqr_synthesis L sys Q R M =
     bind_res (pinv L R) (\<lambda>invR.
     bind_res (mat_mul M invR) (\<lambda>MinvR.
     bind_res (mat_mul MinvR (mat_transpose (G sys))) (\<lambda>MinvRGt.
     bind_res (mat_sub (F sys) MinvRGt) (\<lambda>A.
     bind_res (mat_mul (G sys) invR) (\<lambda>GinvR.
     bind_res (mat_mul GinvR (mat_transpose (G sys))) (\<lambda>B.
     bind_res (mat_mul MinvR M) (\<lambda>MinvRM.
     bind_res (mat_add MinvRM Q) (\<lambda>C.
     bind_res (care L A B C) (\<lambda>(S, out).
     bind_res (mat_mul S A) (\<lambda>SA.
     bind_res (mat_mul (mat_transpose A) S) (\<lambda>AtS.
     bind_res (mat_add SA AtS) (\<lambda>R1.
     bind_res (mat_mul S B) (\<lambda>SB.
     bind_res (mat_mul SB (mat_transpose S)) (\<lambda>SBSt.
     bind_res (mat_sub R1 SBSt) (\<lambda>R2.
     bind_res (mat_add R2 C) (\<lambda>res.
     bind_res (mat_mul (mat_transpose (G sys)) S) (\<lambda>GtS.
     bind_res (mat_add GtS (mat_transpose M)) (\<lambda>GtSMt.
     bind_res (mat_mul invR GtSMt) (\<lambda>K.
     Inr (K, [Show_matrix ''A'' A, Show_matrix ''B'' B, Show_matrix ''C'' C] @ out @
             [Show_matrix ''CARE solution'' res, Show_matrix ''S'' S]))))))))))))))))))))"

definition lqr ::
  "eigen_lib \<Rightarrow> LinearSystem \<Rightarrow> matrix \<Rightarrow> matrix \<Rightarrow> matrix \<Rightarrow> bool \<Rightarrow>
     error + matrix \<times> diag list" where
  "lqr L sys Q R M check =
     bind_res (if check then lqr_check L Q R M else Inr False) (\<lambda>negative.
     if negative then Inr (mat_empty, [Positivity_failed])
     else lqr_synthesis L sys Q R M)"

section \<open>Properties of the matrices and contracts of the library\<close>

text \<open>
  A real Schur form whose diagonal blocks all have size one is an upper triangular matrix.
\<close>

definition upper_triangular :: "matrix \<Rightarrow> bool" where
  "upper_triangular T = (\<forall>i<nrows T. \<forall>j<i. coeff T i j = 0)"

text \<open>
  The diagonal of the Schur form \<open>T\<close> holds the eigenvalues of the matrix; no two of them,
  equal or not, sum to zero.
\<close>

definition no_zero_sum :: "matrix \<Rightarrow> bool" where
  "no_zero_sum T = (\<forall>i<nrows T. \<forall>j<nrows T. coeff T i i + coeff T j j \<noteq> 0)"

text \<open>
  What \<open>Eigen::RealSchur\<close> promises of \<open>matrixT()\<close> and \<open>matrixU()\<close> for an \<open>m\<close> by
  \<open>m\<close> matrix \<open>A\<close>: \<open>U\<close> is orthogonal and \<open>A = U * T * U.transpose()\<close>.
\<close>

definition is_real_schur :: "nat \<Rightarrow> matrix \<Rightarrow> matrix \<Rightarrow> matrix \<Rightarrow> bool" where
  "is_real_schur m A T U =
     (is_mat m m T \<and> is_mat m m U \<and>
      mmul (mat_transpose U) U = mat_identity m m \<and>
      mmul U (mat_transpose U) = mat_identity m m \<and>
      A = mmul (mmul U T) (mat_transpose U))"

text \<open>
  What is needed of \<open>partialPivLu().solve\<close>: on an upper triangular matrix without a zero
  on its diagonal (where the decomposition exchanges no rows and eliminates nothing) it
  returns the solution of the system.
\<close>

definition lu_exact_triangular :: "eigen_lib \<Rightarrow> bool" where
  "lu_exact_triangular L =
     (\<forall>M b. is_mat (nrows M) (nrows M) M \<and> is_mat (nrows M) 1 b \<and> upper_triangular M \<and>
        (\<forall>i<nrows M. coeff M i i \<noteq> 0) \<longrightarrow>
        is_mat (nrows M) 1 (lu_solve L M b) \<and> mmul M (lu_solve L M b) = b)"

text \<open>
  The shapes of the factors of \<open>Eigen::JacobiSVD\<close> with \<open>ComputeFullU | ComputeFullV\<close> for
  a matrix with \<open>n\<close> rows and \<open>m\<close> columns: \<open>U\<close> is \<open>n\<close> by \<open>n\<close>, \<open>V\<close> is \<open>m\<close> by
  \<open>m\<close>, and there are \<open>min n m\<close> singular values.
\<close>

definition svd_shapes :: "eigen_lib \<Rightarrow> bool" where
  "svd_shapes L =
     (\<forall>M. case jacobi_svd L M of (U, singular_values, V) \<Rightarrow>
        nrows U = nrows M \<and> ncols U = nrows M \<and>
        length singular_values = min (nrows M) (ncols M) \<and>
        nrows V = ncols M \<and> ncols V = ncols M)"

text \<open>
  Column \<open>j\<close> of \<open>X\<close> is as the loop of \<open>lyapunov\<close> leaves it: it solves the system
  with the matrix \<open>T + T(j, j) * E\<close> whose right-hand side is built from column \<open>j\<close> of
  \<open>Q1\<close> and the columns of \<open>X\<close> to the right of \<open>j\<close>.
\<close>

definition lyap_col_ok :: "matrix \<Rightarrow> matrix \<Rightarrow> nat \<Rightarrow> matrix \<Rightarrow> nat \<Rightarrow> bool" where
  "lyap_col_ok T Q1 m X j =
     (\<forall>r<m. (\<Sum>k<m. coeff T r k * coeff X k j) + coeff T j j * coeff X r j +
             (\<Sum>k<m - (j + 1). coeff X r (j + 1 + k) * coeff T j (j + 1 + k)) = coeff Q1 r j)"

text \<open>
  The shapes of what the library returns: the Schur factors of a square matrix have its
  size, the solution of a square system with a vector for right-hand side is a vector of
  that size, a square matrix of size \<open>n\<close> has \<open>n\<close> eigenvalues, and the factors of
  the singular value decomposition are as above.
\<close>

definition lib_shapes :: "eigen_lib \<Rightarrow> bool" where
  "lib_shapes L =
     ((\<forall>A. nrows A = ncols A \<longrightarrow>
         (case real_schur L A of (T, U) \<Rightarrow>
            nrows T = nrows A \<and> ncols T = nrows A \<and> nrows U = nrows A \<and> ncols U = nrows A)) \<and>
      (\<forall>M b. nrows M = ncols M \<and> ncols b = 1 \<longrightarrow>
         nrows (lu_solve L M b) = nrows M \<and> ncols (lu_solve L M b) = 1) \<and>
      (\<forall>A. nrows A = ncols A \<longrightarrow> length (eigenvalues L A) = nrows A) \<and>
      svd_shapes L)"

section \<open>The cost of the line search\<close>





section \<open>An instance of the library\<close>

text \<open>
  An executable instance of the library, exact on the matrices it is used on here: an
  upper triangular matrix is its own real Schur form, with the identity for \<open>U\<close>, and
  its diagonal holds its eigenvalues; an upper triangular system is solved by back
  substitution; a diagonal matrix without negative entries, its diagonal in decreasing
  order, is its own matrix of singular values, with identities for \<open>U\<close> and \<open>V\<close>. The
  roots of a polynomial are given by the parameter \<open>rts\<close>.
\<close>

fun back_subst :: "matrix \<Rightarrow> matrix \<Rightarrow> nat \<Rightarrow> real list" where
  "back_subst M b 0 = []"
| "back_subst M b (Suc k) =
     (let xs = back_subst M b k; i = nrows M - Suc k
      in (coeff b i 0 - (\<Sum>j<k. coeff M i (i + 1 + j) * xs ! j)) / coeff M i i # xs)"

definition ref_lib :: "(real list \<Rightarrow> complex list) \<Rightarrow> eigen_lib" where
  "ref_lib rts =
     \<lparr>real_schur = (\<lambda>A. (A, mat_identity (nrows A) (nrows A))),
      lu_solve = (\<lambda>M b. mk_mat (nrows M) 1 (\<lambda>i _. back_subst M b (nrows M) ! i)),
      jacobi_svd = (\<lambda>M. (mat_identity (nrows M) (nrows M),
                           map (\<lambda>i. coeff M i i) [0..<min (nrows M) (ncols M)],
                           mat_identity (ncols M) (ncols M))),
      eigenvalues = (\<lambda>M. map (\<lambda>i. complex_of_real (coeff M i i)) [0..<nrows M]),
      poly_roots = rts\<rparr>"

section \<open>The regulator as the specification words it\<close>

text \<open>
  The products, sums and differences of the specification, on results: an operation on an
  argument that is an error is that error, and one on matrices whose shapes do not fit is
  \<open>DimMismatch\<close>.
\<close>

definition op_mul :: "error + matrix \<Rightarrow> error + matrix \<Rightarrow> error + matrix" where
  "op_mul x y = bind_res x (\<lambda>a. bind_res y (\<lambda>b. mat_mul a b))"

definition op_add :: "error + matrix \<Rightarrow> error + matrix \<Rightarrow> error + matrix" where
  "op_add x y = bind_res x (\<lambda>a. bind_res y (\<lambda>b. mat_add a b))"

definition op_sub :: "error + matrix \<Rightarrow> error + matrix \<Rightarrow> error + matrix" where
  "op_sub x y = bind_res x (\<lambda>a. bind_res y (\<lambda>b. mat_sub a b))"

text \<open>
  The coefficients of the Riccati equation and the gain, as the specification gives them:
  \<open>A = F - M * invR * G\<^sup>T\<close>, \<open>B = G * invR * G\<^sup>T\<close>, \<open>C = M * invR * M + Q\<close>
  and \<open>K = invR * (G\<^sup>T * S + M\<^sup>T)\<close>.
\<close>

definition riccati_A :: "LinearSystem \<Rightarrow> matrix \<Rightarrow> matrix \<Rightarrow> error + matrix" where
  "riccati_A sys M invR =
     op_sub (Inr (F sys)) (op_mul (op_mul (Inr M) (Inr invR)) (Inr (mat_transpose (G sys))))"

definition riccati_B :: "LinearSystem \<Rightarrow> matrix \<Rightarrow> error + matrix" where
  "riccati_B sys invR = op_mul (op_mul (Inr (G sys)) (Inr invR)) (Inr (mat_transpose (G sys)))"

definition riccati_C :: "matrix \<Rightarrow> matrix \<Rightarrow> matrix \<Rightarrow> error + matrix" where
  "riccati_C Q M invR = op_add (op_mul (op_mul (Inr M) (Inr invR)) (Inr M)) (Inr Q)"

definition lqr_gain :: "LinearSystem \<Rightarrow> matrix \<Rightarrow> matrix \<Rightarrow> matrix \<Rightarrow> error + matrix" where
  "lqr_gain sys M invR S =
     op_mul (Inr invR) (op_add (op_mul (Inr (mat_transpose (G sys))) (Inr S)) (Inr (mat_transpose M)))"

text \<open>
  The left-hand side of the Riccati equation at \<open>S\<close>, which \<open>lqr\<close> prints:
  \<open>S * A + A\<^sup>T * S - S * B * S\<^sup>T + C\<close>.
\<close>

definition care_equation :: "matrix \<Rightarrow> matrix \<Rightarrow> matrix \<Rightarrow> matrix \<Rightarrow> error + matrix" where
  "care_equation A B C S =
     op_add (op_sub (op_add (op_mul (Inr S) (Inr A)) (op_mul (Inr (mat_transpose A)) (Inr S)))
                    (op_mul (op_mul (Inr S) (Inr B)) (Inr (mat_transpose S))))
            (Inr C)"

text \<open>The matrix of the positivity check, \<open>Q - M * pinv(R) * M\<^sup>T\<close>.\<close>

definition lqr_QR :: "eigen_lib \<Rightarrow> matrix \<Rightarrow> matrix \<Rightarrow> matrix \<Rightarrow> error + matrix" where
  "lqr_QR L Q R M = op_sub (Inr Q) (op_mul (op_mul (Inr M) (pinv L R)) (Inr (mat_transpose M)))"

section \<open>Matrices: shapes, coefficients and algebra\<close>

lemma bind_res_Inl [simp]: "bind_res (Inl e) f = Inl e"
  by (simp add: bind_res_def)

lemma bind_res_Inr [simp]: "bind_res (Inr x) f = f x"
  by (simp add: bind_res_def)

lemma bind_res_eq_Inr:
  "bind_res r f = Inr y \<longleftrightarrow> (\<exists>x. r = Inr x \<and> f x = Inr y)"
  by (cases r) simp_all

lemma nrows_mk_mat [simp]: "nrows (mk_mat r c f) = r"
  by (simp add: mk_mat_def)

lemma ncols_mk_mat [simp]: "ncols (mk_mat r c f) = c"
  by (simp add: mk_mat_def)

lemma coeff_mk_mat [simp]: "i < r \<Longrightarrow> j < c \<Longrightarrow> coeff (mk_mat r c f) i j = f i j"
  by (simp add: mk_mat_def coeff_def)

lemma mk_mat_eq_iff:
  "mk_mat r c f = mk_mat r c g \<longleftrightarrow> (\<forall>i<r. \<forall>j<c. f i j = g i j)"
  by (auto simp: mk_mat_def)

lemma mk_mat_cong: "(\<And>i j. i < r \<Longrightarrow> j < c \<Longrightarrow> f i j = g i j) \<Longrightarrow> mk_mat r c f = mk_mat r c g"
  by (simp add: mk_mat_eq_iff)

lemma is_mat_mk_mat [simp]: "is_mat r c (mk_mat r c f)"
  by (simp add: is_mat_def mk_mat_def list_all_iff)

lemma is_mat_nrows: "is_mat r c M \<Longrightarrow> nrows M = r"
  by (simp add: is_mat_def)

lemma is_mat_ncols: "is_mat r c M \<Longrightarrow> ncols M = c"
  by (simp add: is_mat_def)

lemma mk_mat_coeff:
  assumes "is_mat r c M"
  shows "mk_mat r c (coeff M) = M"
proof -
  have "elems M = map (\<lambda>i. map (coeff M i) [0..<c]) [0..<r]"
  proof (rule nth_equalityI)
    show "length (elems M) = length (map (\<lambda>i. map (coeff M i) [0..<c]) [0..<r])"
      using assms by (simp add: is_mat_def)
    fix i assume i: "i < length (elems M)"
    then have len: "length (elems M ! i) = c"
      using assms by (simp add: is_mat_def list_all_length)
    have "elems M ! i = map (coeff M i) [0..<c]"
      by (rule nth_equalityI) (simp_all add: len coeff_def)
    then show "elems M ! i = map (\<lambda>i. map (coeff M i) [0..<c]) [0..<r] ! i"
      using i assms by (simp add: is_mat_def)
  qed
  then show ?thesis
    using assms by (simp add: mk_mat_def is_mat_def)
qed

lemma mat_eqI:
  assumes "is_mat r c A" "is_mat r c B"
    and "\<And>i j. i < r \<Longrightarrow> j < c \<Longrightarrow> coeff A i j = coeff B i j"
  shows "A = B"
proof -
  have "mk_mat r c (coeff A) = mk_mat r c (coeff B)"
    using assms(3) by (simp add: mk_mat_eq_iff)
  then show ?thesis
    using assms(1,2) by (simp add: mk_mat_coeff)
qed

lemma nrows_mmul [simp]: "nrows (mmul A B) = nrows A" by (simp add: mmul_def)

lemma ncols_mmul [simp]: "ncols (mmul A B) = ncols B" by (simp add: mmul_def)

lemma nrows_madd [simp]: "nrows (madd A B) = nrows A" by (simp add: madd_def)

lemma ncols_madd [simp]: "ncols (madd A B) = ncols A" by (simp add: madd_def)

lemma nrows_msub [simp]: "nrows (msub A B) = nrows A" by (simp add: msub_def)

lemma ncols_msub [simp]: "ncols (msub A B) = ncols A" by (simp add: msub_def)

lemma nrows_transpose [simp]: "nrows (mat_transpose A) = ncols A" by (simp add: mat_transpose_def)

lemma ncols_transpose [simp]: "ncols (mat_transpose A) = nrows A" by (simp add: mat_transpose_def)

lemma nrows_scale [simp]: "nrows (mat_scale s A) = nrows A" by (simp add: mat_scale_def)

lemma ncols_scale [simp]: "ncols (mat_scale s A) = ncols A" by (simp add: mat_scale_def)

lemma nrows_neg [simp]: "nrows (mat_neg A) = nrows A" by (simp add: mat_neg_def)

lemma ncols_neg [simp]: "ncols (mat_neg A) = ncols A" by (simp add: mat_neg_def)

lemma nrows_identity [simp]: "nrows (mat_identity r c) = r" by (simp add: mat_identity_def)

lemma ncols_identity [simp]: "ncols (mat_identity r c) = c" by (simp add: mat_identity_def)

lemma nrows_zero [simp]: "nrows (mat_zero r c) = r" by (simp add: mat_zero_def)

lemma ncols_zero [simp]: "ncols (mat_zero r c) = c" by (simp add: mat_zero_def)

lemma is_mat_mmul [simp]: "is_mat (nrows A) (ncols B) (mmul A B)" by (simp add: mmul_def)

lemma is_mat_madd [simp]: "is_mat (nrows A) (ncols A) (madd A B)" by (simp add: madd_def)

lemma is_mat_msub [simp]: "is_mat (nrows A) (ncols A) (msub A B)" by (simp add: msub_def)

lemma is_mat_transpose [simp]: "is_mat (ncols A) (nrows A) (mat_transpose A)" by (simp add: mat_transpose_def)

lemma is_mat_scale [simp]: "is_mat (nrows A) (ncols A) (mat_scale s A)" by (simp add: mat_scale_def)

lemma is_mat_neg [simp]: "is_mat (nrows A) (ncols A) (mat_neg A)" by (simp add: mat_neg_def)

lemma is_mat_identity [simp]: "is_mat r c (mat_identity r c)" by (simp add: mat_identity_def)

lemma is_mat_zero [simp]: "is_mat r c (mat_zero r c)" by (simp add: mat_zero_def)

lemma coeff_mmul [simp]:
  "i < nrows A \<Longrightarrow> j < ncols B \<Longrightarrow> coeff (mmul A B) i j = (\<Sum>k<ncols A. coeff A i k * coeff B k j)"
  by (simp add: mmul_def)

lemma coeff_madd [simp]:
  "i < nrows A \<Longrightarrow> j < ncols A \<Longrightarrow> coeff (madd A B) i j = coeff A i j + coeff B i j"
  by (simp add: madd_def)

lemma coeff_msub [simp]:
  "i < nrows A \<Longrightarrow> j < ncols A \<Longrightarrow> coeff (msub A B) i j = coeff A i j - coeff B i j"
  by (simp add: msub_def)

lemma coeff_transpose [simp]:
  "i < ncols A \<Longrightarrow> j < nrows A \<Longrightarrow> coeff (mat_transpose A) i j = coeff A j i"
  by (simp add: mat_transpose_def)

lemma coeff_scale [simp]:
  "i < nrows A \<Longrightarrow> j < ncols A \<Longrightarrow> coeff (mat_scale s A) i j = s * coeff A i j"
  by (simp add: mat_scale_def)

lemma coeff_neg [simp]:
  "i < nrows A \<Longrightarrow> j < ncols A \<Longrightarrow> coeff (mat_neg A) i j = - coeff A i j"
  by (simp add: mat_neg_def)

lemma coeff_identity [simp]:
  "i < r \<Longrightarrow> j < c \<Longrightarrow> coeff (mat_identity r c) i j = (if i = j then 1 else 0)"
  by (simp add: mat_identity_def)

lemma coeff_zero [simp]:
  "i < r \<Longrightarrow> j < c \<Longrightarrow> coeff (mat_zero r c) i j = 0"
  by (simp add: mat_zero_def)

lemma mat_mul_Inr [simp]: "ncols A = nrows B \<Longrightarrow> mat_mul A B = Inr (mmul A B)"
  by (simp add: mat_mul_def)

lemma mat_add_Inr [simp]: "nrows A = nrows B \<Longrightarrow> ncols A = ncols B \<Longrightarrow> mat_add A B = Inr (madd A B)"
  by (simp add: mat_add_def)

lemma mat_sub_Inr [simp]: "nrows A = nrows B \<Longrightarrow> ncols A = ncols B \<Longrightarrow> mat_sub A B = Inr (msub A B)"
  by (simp add: mat_sub_def)

lemma mmul_assoc:
  assumes "ncols A = nrows B" "ncols B = nrows C"
  shows "mmul (mmul A B) C = mmul A (mmul B C)"
proof (rule mat_eqI[of "nrows A" "ncols C"])
  fix i j assume ij: "i < nrows A" "j < ncols C"
  have "coeff (mmul (mmul A B) C) i j
      = (\<Sum>k<ncols B. (\<Sum>l<ncols A. coeff A i l * coeff B l k) * coeff C k j)"
    using ij by simp
  also have "\<dots> = (\<Sum>k<ncols B. \<Sum>l<ncols A. coeff A i l * (coeff B l k * coeff C k j))"
    by (simp add: sum_distrib_right mult.assoc)
  also have "\<dots> = (\<Sum>l<ncols A. \<Sum>k<ncols B. coeff A i l * (coeff B l k * coeff C k j))"
    by (rule sum.swap)
  also have "\<dots> = (\<Sum>l<ncols A. coeff A i l * coeff (mmul B C) l j)"
    using ij assms by (simp add: sum_distrib_left)
  also have "\<dots> = coeff (mmul A (mmul B C)) i j"
    using ij by simp
  finally show "coeff (mmul (mmul A B) C) i j = coeff (mmul A (mmul B C)) i j" .
qed (use is_mat_mmul[of "mmul A B" C] is_mat_mmul[of A "mmul B C"] in simp_all)

lemma mmul_madd_right:
  assumes "ncols A = nrows B" "nrows B = nrows C" "ncols B = ncols C"
  shows "madd (mmul A B) (mmul A C) = mmul A (madd B C)"
proof (rule mat_eqI[of "nrows A" "ncols B"])
  fix i j assume ij: "i < nrows A" "j < ncols B"
  show "coeff (madd (mmul A B) (mmul A C)) i j = coeff (mmul A (madd B C)) i j"
    using ij assms by (simp add: sum.distrib distrib_left)
qed (use is_mat_madd[of "mmul A B" "mmul A C"] is_mat_mmul[of A "madd B C"] in simp_all)

lemma mmul_madd_left:
  assumes "ncols A = nrows C" "nrows A = nrows B" "ncols A = ncols B"
  shows "madd (mmul A C) (mmul B C) = mmul (madd A B) C"
proof (rule mat_eqI[of "nrows A" "ncols C"])
  fix i j assume ij: "i < nrows A" "j < ncols C"
  show "coeff (madd (mmul A C) (mmul B C)) i j = coeff (mmul (madd A B) C) i j"
    using ij assms by (simp add: sum.distrib distrib_right)
qed (use is_mat_madd[of "mmul A C" "mmul B C"] is_mat_mmul[of "madd A B" C] in simp_all)

lemma transpose_mmul:
  assumes "ncols A = nrows B"
  shows "mat_transpose (mmul A B) = mmul (mat_transpose B) (mat_transpose A)"
proof (rule mat_eqI[of "ncols B" "nrows A"])
  fix i j assume ij: "i < ncols B" "j < nrows A"
  show "coeff (mat_transpose (mmul A B)) i j = coeff (mmul (mat_transpose B) (mat_transpose A)) i j"
    using ij assms by (simp add: mult.commute)
qed (use is_mat_transpose[of "mmul A B"] is_mat_mmul[of "mat_transpose B" "mat_transpose A"] in simp_all)

lemma transpose_transpose:
  assumes "is_mat r c A"
  shows "mat_transpose (mat_transpose A) = A"
proof (rule mat_eqI[of r c])
  show "is_mat r c (mat_transpose (mat_transpose A))"
    using is_mat_transpose[of "mat_transpose A"] assms by (simp add: is_mat_nrows is_mat_ncols)
  fix i j assume "i < r" "j < c"
  then show "coeff (mat_transpose (mat_transpose A)) i j = coeff A i j"
    using assms by (simp add: is_mat_nrows is_mat_ncols)
qed (rule assms)

lemma mmul_identity_left:
  assumes "is_mat r c A"
  shows "mmul (mat_identity r r) A = A"
proof (rule mat_eqI[of r c])
  show "is_mat r c (mmul (mat_identity r r) A)"
    using is_mat_mmul[of "mat_identity r r" A] assms by (simp add: is_mat_ncols)
  fix i j assume ij: "i < r" "j < c"
  have "coeff (mmul (mat_identity r r) A) i j = (\<Sum>k<r. (if i = k then 1 else 0) * coeff A k j)"
    using ij assms by (simp add: is_mat_ncols)
  also have "\<dots> = (\<Sum>k<r. if k = i then coeff A k j else 0)"
    by (rule sum.cong) auto
  also have "\<dots> = coeff A i j"
    using ij by simp
  finally show "coeff (mmul (mat_identity r r) A) i j = coeff A i j" .
qed (rule assms)

lemma mmul_identity_right:
  assumes "is_mat r c A"
  shows "mmul A (mat_identity c c) = A"
proof (rule mat_eqI[of r c])
  show "is_mat r c (mmul A (mat_identity c c))"
    using is_mat_mmul[of A "mat_identity c c"] assms by (simp add: is_mat_nrows)
  fix i j assume ij: "i < r" "j < c"
  have "coeff (mmul A (mat_identity c c)) i j = (\<Sum>k<c. coeff A i k * (if k = j then 1 else 0))"
    using ij assms by (simp add: is_mat_nrows is_mat_ncols)
  also have "\<dots> = (\<Sum>k<c. if k = j then coeff A i k else 0)"
    by (rule sum.cong) auto
  also have "\<dots> = coeff A i j"
    using ij by simp
  finally show "coeff (mmul A (mat_identity c c)) i j = coeff A i j" .
qed (rule assms)

lemma sum_shift_split:
  fixes f :: "nat \<Rightarrow> real"
  shows "(\<Sum>k<a + d. f k) = (\<Sum>k<a. f k) + (\<Sum>k<d. f (a + k))"
  by (induction d) (simp_all add: add.assoc[symmetric])

lemma sum_upper_split:
  fixes f :: "nat \<Rightarrow> real"
  assumes "j < m" "\<And>k. k < j \<Longrightarrow> f k = 0"
  shows "(\<Sum>k<m. f k) = f j + (\<Sum>k<m - (j + 1). f (j + 1 + k))"
proof -
  have "(\<Sum>k<(j + 1) + (m - (j + 1)). f k) = (\<Sum>k<j + 1. f k) + (\<Sum>k<m - (j + 1). f (j + 1 + k))"
    by (rule sum_shift_split)
  moreover have "(\<Sum>k<j + 1. f k) = f j"
    using assms(2) by simp
  moreover have "(j + 1) + (m - (j + 1)) = m"
    using assms(1) by simp
  ultimately show ?thesis by simp
qed

lemma shifted_solve:
  assumes L: "lu_exact_triangular L"
    and T: "is_mat m m T" "upper_triangular T" "no_zero_sum T"
    and j: "j < m" and v: "is_mat m 1 v"
  shows "\<exists>x. lu_solve_of L (madd T (mat_scale (coeff T j j) (mat_identity m m))) v = Inr x \<and>
              is_mat m 1 x \<and>
              (\<forall>r<m. (\<Sum>k<m. coeff T r k * coeff x k 0) + coeff T j j * coeff x r 0 = coeff v r 0)"
proof -
  define M where "M = madd T (mat_scale (coeff T j j) (mat_identity m m))"
  have Tm: "nrows T = m" "ncols T = m"
    using T(1) by (simp_all add: is_mat_nrows is_mat_ncols)
  have vm: "nrows v = m" "ncols v = 1"
    using v by (simp_all add: is_mat_nrows is_mat_ncols)
  have Mm: "nrows M = m" "ncols M = m"
    by (simp_all add: M_def Tm)
  have Mc: "coeff M r k = coeff T r k + coeff T j j * (if r = k then 1 else 0)"
    if "r < m" "k < m" for r k
    using that by (simp add: M_def Tm)
  have M1: "is_mat (nrows M) (nrows M) M"
    using is_mat_madd[of T "mat_scale (coeff T j j) (mat_identity m m)"] by (simp add: M_def Tm)
  have M2: "upper_triangular M"
    using T(2) by (simp add: upper_triangular_def Mm Mc Tm)
  have M3: "\<forall>i<nrows M. coeff M i i \<noteq> 0"
    using T(3) j by (simp add: no_zero_sum_def Mm Mc Tm)
  define x where "x = lu_solve L M v"
  have "is_mat (nrows M) 1 (lu_solve L M v) \<and> mmul M (lu_solve L M v) = v"
    using L[unfolded lu_exact_triangular_def, rule_format, of M v] M1 M2 M3 v
    by (simp add: Mm)
  then have x: "is_mat m 1 x" "mmul M x = v"
    by (simp_all add: x_def Mm)
  have xm: "nrows x = m" "ncols x = 1"
    using x(1) by (simp_all add: is_mat_nrows is_mat_ncols)
  have "(\<Sum>k<m. coeff T r k * coeff x k 0) + coeff T j j * coeff x r 0 = coeff v r 0"
    if r: "r < m" for r
  proof -
    have "coeff v r 0 = coeff (mmul M x) r 0"
      by (simp add: x(2))
    also have "\<dots> = (\<Sum>k<m. coeff M r k * coeff x k 0)"
      using r by (simp add: Mm xm)
    also have "\<dots> = (\<Sum>k<m. coeff T r k * coeff x k 0 + (if k = r then coeff T j j * coeff x k 0 else 0))"
      by (rule sum.cong) (use r in \<open>auto simp: Mc distrib_right\<close>)
    also have "\<dots> = (\<Sum>k<m. coeff T r k * coeff x k 0) + coeff T j j * coeff x r 0"
      using r by (simp add: sum.distrib)
    finally show ?thesis by simp
  qed
  moreover have "lu_solve_of L M v = Inr x"
    by (simp add: lu_solve_of_def Mm vm x_def)
  ultimately show ?thesis
    using x(1) unfolding M_def by blast
qed

lemma mat_col_Inr: "j < ncols M \<Longrightarrow> mat_col M j = Inr (mk_mat (nrows M) 1 (\<lambda>i _. coeff M i j))"
  by (simp add: mat_col_def)

lemma mat_at_Inr: "i < nrows M \<Longrightarrow> j < ncols M \<Longrightarrow> mat_at M i j = Inr (coeff M i j)"
  by (simp add: mat_at_def)

lemma lyapunov_loop_ok:
  assumes L: "lu_exact_triangular L"
    and T: "is_mat m m T" "upper_triangular T" "no_zero_sum T"
    and Q1: "is_mat m m Q1"
  shows "i < m \<Longrightarrow> is_mat m m X \<Longrightarrow> (\<forall>j<m. i \<le> j \<longrightarrow> lyap_col_ok T Q1 m X j) \<Longrightarrow>
         \<exists>Y. lyapunov_loop L T Q1 (mat_identity m m) m i X = Inr Y \<and> is_mat m m Y \<and>
             (\<forall>j<m. lyap_col_ok T Q1 m Y j)"
proof (induction i arbitrary: X)
  case 0
  then show ?case by simp
next
  case (Suc i)
  have Tm: "nrows T = m" "ncols T = m"
    using T(1) by (simp_all add: is_mat_nrows is_mat_ncols)
  have Qm: "nrows Q1 = m" "ncols Q1 = m"
    using Q1 by (simp_all add: is_mat_nrows is_mat_ncols)
  have Xm: "nrows X = m" "ncols X = m"
    using Suc.prems(2) by (simp_all add: is_mat_nrows is_mat_ncols)
  have i: "i < m" "i + 1 < m"
    using Suc.prems(1) by simp_all
  define d where "d = m - (i + 1)"
  define q where "q = mk_mat m 1 (\<lambda>r _. coeff Q1 r i)"
  define Xb where "Xb = mk_mat m d (\<lambda>a b. coeff X (0 + a) (i + 1 + b))"
  define Tb where "Tb = mk_mat 1 d (\<lambda>a b. coeff T (i + a) (i + 1 + b))"
  define v where "v = msub q (mmul Xb (mat_transpose Tb))"
  have e1: "mat_col Q1 i = Inr q"
    using i by (simp add: mat_col_Inr Qm q_def)
  have e2: "mat_block X 0 (i + 1) m (m - (i + 1)) = Inr Xb"
    using i by (simp add: mat_block_def Xm Xb_def d_def)
  have e3: "mat_block T i (i + 1) 1 (m - (i + 1)) = Inr Tb"
    using i by (simp add: mat_block_def Tm Tb_def d_def)
  have e4: "mat_mul Xb (mat_transpose Tb) = Inr (mmul Xb (mat_transpose Tb))"
    by (simp add: Xb_def Tb_def)
  have e5: "mat_sub q (mmul Xb (mat_transpose Tb)) = Inr v"
    by (simp add: v_def q_def Xb_def Tb_def)
  have e6: "mat_at T i i = Inr (coeff T i i)"
    using i by (simp add: mat_at_Inr Tm)
  have e7: "mat_add T (mat_scale (coeff T i i) (mat_identity m m))
              = Inr (madd T (mat_scale (coeff T i i) (mat_identity m m)))"
    by (simp add: Tm)
  have vm: "is_mat m 1 v"
    using is_mat_msub[of q "mmul Xb (mat_transpose Tb)"] by (simp add: v_def q_def)
  have vc: "coeff v r 0 = coeff Q1 r i - (\<Sum>k<d. coeff X r (i + 1 + k) * coeff T i (i + 1 + k))"
    if "r < m" for r
    using that by (simp add: v_def q_def Xb_def Tb_def)
  obtain x where x: "lu_solve_of L (madd T (mat_scale (coeff T i i) (mat_identity m m))) v = Inr x"
      "is_mat m 1 x"
      "\<forall>r<m. (\<Sum>k<m. coeff T r k * coeff x k 0) + coeff T i i * coeff x r 0 = coeff v r 0"
    using shifted_solve[OF L T i(1) vm] by blast
  have xm: "nrows x = m" "ncols x = 1"
    using x(2) by (simp_all add: is_mat_nrows is_mat_ncols)
  define X' where "X' = mk_mat m m (\<lambda>r l. if l = i then coeff x r 0 else coeff X r l)"
  have e9: "mat_set_col X i x = Inr X'"
    using i by (simp add: mat_set_col_def Xm xm X'_def)
  have step: "lyapunov_loop L T Q1 (mat_identity m m) m (Suc i) X
                = lyapunov_loop L T Q1 (mat_identity m m) m i X'"
    by (simp only: lyapunov_loop.simps e1 e2 e3 e4 e5 e6 e7 x(1) e9 bind_res_Inr)
  have X'c: "coeff X' r l = (if l = i then coeff x r 0 else coeff X r l)" if "r < m" "l < m" for r l
    using that by (simp add: X'_def)
  have ok: "lyap_col_ok T Q1 m X' j" if j: "j < m" "i \<le> j" for j
  proof (cases "j = i")
    case True
    show ?thesis
      unfolding lyap_col_ok_def
    proof (intro allI impI)
      fix r assume r: "r < m"
      have "(\<Sum>k<m. coeff T r k * coeff X' k j) = (\<Sum>k<m. coeff T r k * coeff x k 0)"
        by (rule sum.cong) (use True i in \<open>simp_all add: X'c\<close>)
      moreover have "(\<Sum>k<m - (j + 1). coeff X' r (j + 1 + k) * coeff T j (j + 1 + k))
          = (\<Sum>k<d. coeff X r (i + 1 + k) * coeff T i (i + 1 + k))"
        unfolding d_def True by (rule sum.cong) (use r i in \<open>simp_all add: X'c\<close>)
      moreover have "coeff X' r j = coeff x r 0"
        using r i True by (simp add: X'c)
      ultimately show "(\<Sum>k<m. coeff T r k * coeff X' k j) + coeff T j j * coeff X' r j +
          (\<Sum>k<m - (j + 1). coeff X' r (j + 1 + k) * coeff T j (j + 1 + k)) = coeff Q1 r j"
        using x(3) r vc[OF r] True by simp
    qed
  next
    case False
    then have ji: "Suc i \<le> j" using j by simp
    have old: "lyap_col_ok T Q1 m X j"
      using Suc.prems(3) j(1) ji by blast
    show ?thesis
      unfolding lyap_col_ok_def
    proof (intro allI impI)
      fix r assume r: "r < m"
      have "(\<Sum>k<m. coeff T r k * coeff X' k j) = (\<Sum>k<m. coeff T r k * coeff X k j)"
        by (rule sum.cong) (use False j in \<open>simp_all add: X'c\<close>)
      moreover have "(\<Sum>k<m - (j + 1). coeff X' r (j + 1 + k) * coeff T j (j + 1 + k))
          = (\<Sum>k<m - (j + 1). coeff X r (j + 1 + k) * coeff T j (j + 1 + k))"
        by (rule sum.cong) (use r ji in \<open>simp_all add: X'c\<close>)
      moreover have "coeff X' r j = coeff X r j"
        using r j False by (simp add: X'c)
      ultimately show "(\<Sum>k<m. coeff T r k * coeff X' k j) + coeff T j j * coeff X' r j +
          (\<Sum>k<m - (j + 1). coeff X' r (j + 1 + k) * coeff T j (j + 1 + k)) = coeff Q1 r j"
        using old r unfolding lyap_col_ok_def by simp
    qed
  qed
  have "\<exists>Y. lyapunov_loop L T Q1 (mat_identity m m) m i X' = Inr Y \<and> is_mat m m Y \<and>
             (\<forall>j<m. lyap_col_ok T Q1 m Y j)"
  proof (rule Suc.IH)
    show "i < m" by (rule i(1))
    show "is_mat m m X'" by (simp add: X'_def)
    show "\<forall>j<m. i \<le> j \<longrightarrow> lyap_col_ok T Q1 m X' j" using ok by blast
  qed
  then show ?case
    by (simp only: step)
qed

lemma lyap_cols_sylvester:
  assumes T: "is_mat m m T" "upper_triangular T"
    and Y: "is_mat m m Y" and Q1: "is_mat m m Q1"
    and ok: "\<forall>j<m. lyap_col_ok T Q1 m Y j"
  shows "madd (mmul T Y) (mmul Y (mat_transpose T)) = Q1"
proof (rule mat_eqI[of m m])
  have Tm: "nrows T = m" "ncols T = m"
    using T(1) by (simp_all add: is_mat_nrows is_mat_ncols)
  have Ym: "nrows Y = m" "ncols Y = m"
    using Y by (simp_all add: is_mat_nrows is_mat_ncols)
  show "is_mat m m (madd (mmul T Y) (mmul Y (mat_transpose T)))"
    using is_mat_madd[of "mmul T Y" "mmul Y (mat_transpose T)"] by (simp add: Tm Ym)
  show "is_mat m m Q1" by (rule Q1)
  fix r j assume rj: "r < m" "j < m"
  have low: "coeff Y r k * coeff T j k = 0" if "k < j" for k
    using T(2) that rj by (simp add: upper_triangular_def Tm)
  have "(\<Sum>k<m. coeff Y r k * coeff (mat_transpose T) k j) = (\<Sum>k<m. coeff Y r k * coeff T j k)"
    by (rule sum.cong) (use rj in \<open>simp_all add: Tm\<close>)
  also have "\<dots> = coeff Y r j * coeff T j j +
      (\<Sum>k<m - (j + 1). coeff Y r (j + 1 + k) * coeff T j (j + 1 + k))"
    by (rule sum_upper_split[OF rj(2)]) (rule low)
  finally have "coeff (madd (mmul T Y) (mmul Y (mat_transpose T))) r j =
      (\<Sum>k<m. coeff T r k * coeff Y k j) + coeff T j j * coeff Y r j +
      (\<Sum>k<m - (j + 1). coeff Y r (j + 1 + k) * coeff T j (j + 1 + k))"
    using rj by (simp add: Tm Ym mult.commute)
  then show "coeff (madd (mmul T Y) (mmul Y (mat_transpose T))) r j = coeff Q1 r j"
    using ok rj unfolding lyap_col_ok_def by simp
qed

lemma lyapunov_triangular:
  assumes S: "real_schur L A = (T, U)" "is_real_schur m A T U"
    and T: "upper_triangular T" "no_zero_sum T"
    and L: "lu_exact_triangular L"
    and Q: "nrows Q = m" "ncols Q = m" and m: "0 < m"
  shows "\<exists>Y. lyapunov L A Q = Inr (mmul (mmul U Y) (mat_transpose U)) \<and> is_mat m m Y \<and>
             madd (mmul T Y) (mmul Y (mat_transpose T)) = mmul (mmul (mat_transpose U) Q) U"
proof -
  have Tmat: "is_mat m m T" and Umat: "is_mat m m U"
    and A: "A = mmul (mmul U T) (mat_transpose U)"
    using S(2) by (simp_all add: is_real_schur_def)
  have Tm: "nrows T = m" "ncols T = m"
    using Tmat by (simp_all add: is_mat_nrows is_mat_ncols)
  have Um: "nrows U = m" "ncols U = m"
    using Umat by (simp_all add: is_mat_nrows is_mat_ncols)
  have Am: "nrows A = m" "ncols A = m"
    by (simp_all add: A Um)
  define Q1 where "Q1 = mmul (mmul (mat_transpose U) Q) U"
  have Q1mat: "is_mat m m Q1"
    using is_mat_mmul[of "mmul (mat_transpose U) Q" U] by (simp add: Q1_def Um)
  have Q1m: "nrows Q1 = m" "ncols Q1 = m"
    using Q1mat by (simp_all add: is_mat_nrows is_mat_ncols)
  define q where "q = mk_mat m 1 (\<lambda>r _. coeff Q1 r (m - 1))"
  have e1: "schur_of L A = Inr (T, U)"
    by (simp add: schur_of_def Am S(1))
  have e2: "mat_mul (mat_transpose U) Q = Inr (mmul (mat_transpose U) Q)"
    by (simp add: Um Q)
  have e3: "mat_mul (mmul (mat_transpose U) Q) U = Inr Q1"
    by (simp add: Um Q Q1_def)
  have e4: "mat_at T (m - 1) (m - 1) = Inr (coeff T (m - 1) (m - 1))"
    using m by (simp add: mat_at_Inr Tm)
  have e5: "mat_add T (mat_scale (coeff T (m - 1) (m - 1)) (mat_identity m m))
              = Inr (madd T (mat_scale (coeff T (m - 1) (m - 1)) (mat_identity m m)))"
    by (simp add: Tm)
  have e6: "mat_col Q1 (m - 1) = Inr q"
    using m by (simp add: mat_col_Inr Q1m q_def)
  have qm: "is_mat m 1 q"
    by (simp add: q_def)
  have m1: "m - 1 < m"
    using m by simp
  obtain x where x:
      "lu_solve_of L (madd T (mat_scale (coeff T (m - 1) (m - 1)) (mat_identity m m))) q = Inr x"
      "is_mat m 1 x"
      "\<forall>r<m. (\<Sum>k<m. coeff T r k * coeff x k 0) + coeff T (m - 1) (m - 1) * coeff x r 0
              = coeff q r 0"
    using shifted_solve[OF L Tmat T m1 qm] by blast
  have xm: "nrows x = m" "ncols x = 1"
    using x(2) by (simp_all add: is_mat_nrows is_mat_ncols)
  define X0 where
    "X0 = mk_mat m m (\<lambda>r l. if l = m - 1 then coeff x r 0 else coeff (mat_zero m m) r l)"
  have e8: "mat_set_col (mat_zero m m) (m - 1) x = Inr X0"
    using m by (simp add: mat_set_col_def xm X0_def)
  have X0ok: "lyap_col_ok T Q1 m X0 j" if "j < m" "m - 1 \<le> j" for j
  proof -
    have j: "j = m - 1" using that by simp
    show ?thesis
      unfolding lyap_col_ok_def j
    proof (intro allI impI)
      fix r assume r: "r < m"
      have "(\<Sum>k<m. coeff T r k * coeff X0 k (m - 1)) = (\<Sum>k<m. coeff T r k * coeff x k 0)"
        by (rule sum.cong) (use m in \<open>simp_all add: X0_def\<close>)
      moreover have "coeff X0 r (m - 1) = coeff x r 0"
        using r m by (simp add: X0_def)
      moreover have "coeff q r 0 = coeff Q1 r (m - 1)"
        using r by (simp add: q_def)
      ultimately show "(\<Sum>k<m. coeff T r k * coeff X0 k (m - 1)) +
          coeff T (m - 1) (m - 1) * coeff X0 r (m - 1) +
          (\<Sum>k<m - (m - 1 + 1). coeff X0 r (m - 1 + 1 + k) * coeff T (m - 1) (m - 1 + 1 + k))
          = coeff Q1 r (m - 1)"
        using x(3) r m by simp
    qed
  qed
  have "\<exists>Y. lyapunov_loop L T Q1 (mat_identity m m) m (m - 1) X0 = Inr Y \<and> is_mat m m Y \<and>
             (\<forall>j<m. lyap_col_ok T Q1 m Y j)"
  proof (rule lyapunov_loop_ok[OF L Tmat T Q1mat])
    show "m - 1 < m" by (rule m1)
    show "is_mat m m X0" by (simp add: X0_def)
    show "\<forall>j<m. m - 1 \<le> j \<longrightarrow> lyap_col_ok T Q1 m X0 j" using X0ok by blast
  qed
  then obtain Y where Y: "lyapunov_loop L T Q1 (mat_identity m m) m (m - 1) X0 = Inr Y"
      "is_mat m m Y" "\<forall>j<m. lyap_col_ok T Q1 m Y j"
    by blast
  have Ym: "nrows Y = m" "ncols Y = m"
    using Y(2) by (simp_all add: is_mat_nrows is_mat_ncols)
  have e10: "mat_mul U Y = Inr (mmul U Y)"
    by (simp add: Um Ym)
  have e11: "mat_mul (mmul U Y) (mat_transpose U) = Inr (mmul (mmul U Y) (mat_transpose U))"
    by (simp add: Um Ym)
  have m0: "m \<noteq> 0" using m by simp
  have "lyapunov L A Q = Inr (mmul (mmul U Y) (mat_transpose U))"
    unfolding lyapunov_def Let_def Q(1)
    by (simp only: e1 e2 e3 e4 e5 e6 x(1) e8 Y(1) e10 e11 bind_res_Inr prod.case m0 if_False)
  moreover have "madd (mmul T Y) (mmul Y (mat_transpose T)) = Q1"
    by (rule lyap_cols_sylvester[OF Tmat T(1) Y(2) Q1mat Y(3)])
  ultimately show ?thesis
    using Y(2) unfolding Q1_def by blast
qed

lemma orth_cancel:
  assumes "is_mat m m U" "mmul V U = mat_identity m m" "nrows V = m" "ncols V = m" "is_mat m c Z"
  shows "mmul V (mmul U Z) = Z"
proof -
  have "mmul V (mmul U Z) = mmul (mmul V U) Z"
    by (rule mmul_assoc[symmetric]) (use assms in \<open>simp_all add: is_mat_nrows is_mat_ncols\<close>)
  also have "\<dots> = Z"
    unfolding assms(2) by (rule mmul_identity_left[OF assms(5)])
  finally show ?thesis .
qed

lemma similarity_back:
  assumes S: "is_real_schur m A T U"
    and Y: "is_mat m m Y" and Q: "is_mat m m Q"
    and eq: "madd (mmul T Y) (mmul Y (mat_transpose T)) = mmul (mmul (mat_transpose U) Q) U"
  shows "madd (mmul A (mmul (mmul U Y) (mat_transpose U)))
              (mmul (mmul (mmul U Y) (mat_transpose U)) (mat_transpose A)) = Q"
proof -
  define V where "V = mat_transpose U"
  have Tmat: "is_mat m m T" and Umat: "is_mat m m U"
    and VU: "mmul V U = mat_identity m m" and UV: "mmul U V = mat_identity m m"
    and A: "A = mmul (mmul U T) V"
    using S by (simp_all add: is_real_schur_def V_def)
  have d [simp]: "nrows T = m" "ncols T = m" "nrows U = m" "ncols U = m"
      "nrows Y = m" "ncols Y = m" "nrows Q = m" "ncols Q = m" "nrows V = m" "ncols V = m"
    using Tmat Umat Y Q by (simp_all add: is_mat_nrows is_mat_ncols V_def)
  have Vmat: "is_mat m m V"
    using is_mat_transpose[of U] by (simp add: V_def)
  have VV: "mat_transpose V = U"
    unfolding V_def by (rule transpose_transpose[OF Umat])
  have mm: "is_mat m m (mmul P R)" if "nrows P = m" "ncols R = m" for P R
    using is_mat_mmul[of P R] that by simp
  have c1: "mmul V (mmul U Z) = Z" if "is_mat m m Z" for Z
    by (rule orth_cancel[OF Umat VU _ _ that]) simp_all
  have AX: "mmul A (mmul (mmul U Y) V) = mmul U (mmul (mmul T Y) V)"
  proof -
    have "mmul A (mmul (mmul U Y) V) = mmul (mmul U T) (mmul V (mmul U (mmul Y V)))"
      by (simp add: A mmul_assoc)
    also have "\<dots> = mmul (mmul U T) (mmul Y V)"
      by (simp add: c1 mm)
    also have "\<dots> = mmul U (mmul (mmul T Y) V)"
      by (simp add: mmul_assoc)
    finally show ?thesis .
  qed
  have At: "mat_transpose A = mmul U (mmul (mat_transpose T) V)"
    by (simp add: A transpose_mmul VV mmul_assoc V_def[symmetric])
  have XA: "mmul (mmul (mmul U Y) V) (mat_transpose A) = mmul U (mmul (mmul Y (mat_transpose T)) V)"
  proof -
    have "mmul (mmul (mmul U Y) V) (mat_transpose A)
        = mmul (mmul U Y) (mmul V (mmul U (mmul (mat_transpose T) V)))"
      by (simp add: At mmul_assoc)
    also have "\<dots> = mmul (mmul U Y) (mmul (mat_transpose T) V)"
      by (simp add: c1 mm)
    also have "\<dots> = mmul U (mmul (mmul Y (mat_transpose T)) V)"
      by (simp add: mmul_assoc)
    finally show ?thesis .
  qed
  have "madd (mmul A (mmul (mmul U Y) V)) (mmul (mmul (mmul U Y) V) (mat_transpose A))
      = mmul U (mmul (madd (mmul T Y) (mmul Y (mat_transpose T))) V)"
    by (simp add: AX XA mmul_madd_right mmul_madd_left)
  also have "\<dots> = mmul U (mmul (mmul (mmul V Q) U) V)"
    by (simp add: eq V_def)
  also have "\<dots> = mmul (mmul U V) (mmul Q (mmul U V))"
    by (simp add: mmul_assoc)
  also have "\<dots> = Q"
    using Q by (simp add: UV mmul_identity_left mmul_identity_right)
  finally show ?thesis
    by (simp add: V_def)
qed

lemma lyapunov_solves_AX_XAt:
  assumes "real_schur L A = (T, U)" "is_real_schur m A T U"
    and "upper_triangular T" "no_zero_sum T"
    and "lu_exact_triangular L"
    and "is_mat m m Q" and "0 < m"
  shows "\<exists>X. lyapunov L A Q = Inr X \<and> is_mat m m X \<and>
             mat_add (mmul A X) (mmul X (mat_transpose A)) = Inr Q"
proof -
  have Qm: "nrows Q = m" "ncols Q = m"
    using assms(6) by (simp_all add: is_mat_nrows is_mat_ncols)
  have Um: "nrows U = m" "ncols U = m"
    using assms(2) by (auto simp: is_real_schur_def dest: is_mat_nrows is_mat_ncols)
  obtain Y where Y: "lyapunov L A Q = Inr (mmul (mmul U Y) (mat_transpose U))" "is_mat m m Y"
      "madd (mmul T Y) (mmul Y (mat_transpose T)) = mmul (mmul (mat_transpose U) Q) U"
    using lyapunov_triangular[OF assms(1-5) Qm assms(7)] by blast
  define X where "X = mmul (mmul U Y) (mat_transpose U)"
  have "is_mat m m X"
    using is_mat_mmul[of "mmul U Y" "mat_transpose U"] by (simp add: X_def Um)
  moreover have "madd (mmul A X) (mmul X (mat_transpose A)) = Q"
    unfolding X_def by (rule similarity_back[OF assms(2) Y(2) assms(6) Y(3)])
  moreover have "nrows A = m" "ncols A = m"
    using assms(2) by (simp_all add: is_real_schur_def Um)
  ultimately show ?thesis
    using Y(1) by (simp add: X_def Um)
qed

lemma length_back_subst [simp]: "length (back_subst M b k) = k"
  by (induction k) (simp_all add: Let_def)

lemma back_subst_suffix: "j < k \<Longrightarrow> back_subst M b (d + k) ! (d + j) = back_subst M b k ! j"
  by (induction d) (simp_all add: Let_def)

lemma back_subst_head:
  "back_subst M b (Suc k) ! 0 =
     (coeff b (nrows M - Suc k) 0 -
        (\<Sum>j<k. coeff M (nrows M - Suc k) (nrows M - Suc k + 1 + j) * back_subst M b k ! j))
     / coeff M (nrows M - Suc k) (nrows M - Suc k)"
  by (simp add: Let_def)

lemma back_subst_row:
  assumes i: "i < n" and n: "nrows M = n" and nz: "coeff M i i \<noteq> 0"
  shows "coeff M i i * back_subst M b n ! i +
         (\<Sum>j<n - (i + 1). coeff M i (i + 1 + j) * back_subst M b n ! (i + 1 + j)) = coeff b i 0"
proof -
  define k where "k = n - (i + 1)"
  have nk: "n = i + Suc k" "n - Suc k = i" "n = (i + 1) + k"
    using i by (simp_all add: k_def)
  have a: "back_subst M b n ! i = back_subst M b (Suc k) ! 0"
    using back_subst_suffix[of 0 "Suc k" M b i] by (simp add: nk(1))
  have b: "back_subst M b n ! (i + 1 + j) = back_subst M b k ! j" if "j < k" for j
    using back_subst_suffix[of j k M b "i + 1"] that nk(3) by simp
  define s where "s = (\<Sum>j<k. coeff M i (i + 1 + j) * back_subst M b k ! j)"
  have s: "(\<Sum>j<k. coeff M i (i + 1 + j) * back_subst M b n ! (i + 1 + j)) = s"
    unfolding s_def by (rule sum.cong) (use b in auto)
  have "back_subst M b (Suc k) ! 0 = (coeff b i 0 - s) / coeff M i i"
    using back_subst_head[of M b k] by (simp add: n nk(2) s_def)
  then have "coeff M i i * back_subst M b n ! i + s = coeff b i 0"
    using nz by (simp add: a)
  then show ?thesis
    using s by (simp only: k_def)
qed

lemma lu_exact_triangular_ref_lib: "lu_exact_triangular (ref_lib rts)"
  unfolding lu_exact_triangular_def
proof (intro allI impI, elim conjE)
  fix M b
  assume M: "is_mat (nrows M) (nrows M) M" and b: "is_mat (nrows M) 1 b"
    and tri: "upper_triangular M" and nz: "\<forall>i<nrows M. coeff M i i \<noteq> 0"
  define n where "n = nrows M"
  define x where "x = mk_mat n 1 (\<lambda>i _. back_subst M b n ! i)"
  have x: "lu_solve (ref_lib rts) M b = x"
    by (simp add: ref_lib_def x_def n_def)
  have Mc: "ncols M = n"
    using M by (simp add: is_mat_ncols n_def)
  have "mmul M x = b"
  proof (rule mat_eqI[of n 1])
    show "is_mat n 1 (mmul M x)"
      using is_mat_mmul[of M x] by (simp add: x_def n_def)
    show "is_mat n 1 b"
      using b by (simp add: n_def)
    fix i j :: nat assume ij: "i < n" "j < 1"
    then have j: "j = 0" by simp
    have low: "coeff M i k * back_subst M b n ! k = 0" if "k < i" for k
      using tri that ij by (simp add: upper_triangular_def n_def)
    have "coeff (mmul M x) i 0 = (\<Sum>k<n. coeff M i k * coeff x k 0)"
      using ij by (simp add: n_def[symmetric] Mc x_def)
    also have "\<dots> = (\<Sum>k<n. coeff M i k * back_subst M b n ! k)"
      by (rule sum.cong) (simp_all add: x_def)
    also have "\<dots> = coeff M i i * back_subst M b n ! i +
        (\<Sum>k<n - (i + 1). coeff M i (i + 1 + k) * back_subst M b n ! (i + 1 + k))"
      by (rule sum_upper_split[OF ij(1)]) (rule low)
    also have "\<dots> = coeff b i 0"
      by (rule back_subst_row[OF ij(1)]) (use nz ij in \<open>simp_all add: n_def\<close>)
    finally show "coeff (mmul M x) i j = coeff b i j"
      by (simp add: j)
  qed
  moreover have "is_mat n 1 x"
    by (simp add: x_def)
  ultimately show "is_mat (nrows M) 1 (lu_solve (ref_lib rts) M b) \<and>
      mmul M (lu_solve (ref_lib rts) M b) = b"
    by (simp add: x n_def)
qed

lemma transpose_identity: "mat_transpose (mat_identity m m) = mat_identity m m"
  by (rule mat_eqI[of m m]) (use is_mat_transpose[of "mat_identity m m"] in auto)

lemma is_real_schur_triangular:
  assumes "is_mat m m A"
  shows "is_real_schur m A A (mat_identity m m)"
  using assms mmul_identity_left[of m m "mat_identity m m"] mmul_identity_left[of m m A]
    mmul_identity_right[of m m A]
  by (simp add: is_real_schur_def transpose_identity)

lemma transpose_madd:
  assumes "nrows A = nrows B" "ncols A = ncols B"
  shows "mat_transpose (madd A B) = madd (mat_transpose A) (mat_transpose B)"
proof (rule mat_eqI[of "ncols A" "nrows A"])
  fix i j assume "i < ncols A" "j < nrows A"
  then show "coeff (mat_transpose (madd A B)) i j = coeff (madd (mat_transpose A) (mat_transpose B)) i j"
    using assms by simp
qed (use is_mat_transpose[of "madd A B"] is_mat_madd[of "mat_transpose A" "mat_transpose B"] in simp_all)

lemma madd_commute:
  assumes "nrows A = nrows B" "ncols A = ncols B"
  shows "madd A B = madd B A"
proof (rule mat_eqI[of "nrows A" "ncols A"])
  fix i j assume "i < nrows A" "j < ncols A"
  then show "coeff (madd A B) i j = coeff (madd B A) i j"
    using assms by simp
qed (use is_mat_madd[of A B] is_mat_madd[of B A] assms in simp_all)

lemma sylvester_entries_zero:
  fixes d :: "nat \<Rightarrow> nat \<Rightarrow> real"
  assumes T: "nrows T = m" "upper_triangular T" "no_zero_sum T"
    and eq: "\<And>i j. i < m \<Longrightarrow> j < m \<Longrightarrow>
      (\<Sum>k<m. coeff T i k * d k j) + (\<Sum>k<m. d i k * coeff T j k) = 0"
  shows "i < m \<Longrightarrow> j < m \<Longrightarrow> d i j = 0"
proof (induction "2 * m - (i + j)" arbitrary: i j rule: less_induct)
  case less
  have later: "d k l = 0" if "k < m" "l < m" "i + j < k + l" for k l
    by (rule less.hyps) (use that less.prems in simp_all)
  have "(\<Sum>k<m. coeff T i k * d k j) = (\<Sum>k<m. if k = i then coeff T i i * d i j else 0)"
  proof (rule sum.cong)
    fix k assume "k \<in> {..<m}"
    then have k: "k < m" by simp
    consider "k < i" | "k = i" | "i < k" by linarith
    then show "coeff T i k * d k j = (if k = i then coeff T i i * d i j else 0)"
    proof cases
      case 1
      then have "coeff T i k = 0"
        using T(1,2) less.prems by (simp add: upper_triangular_def)
      then show ?thesis using 1 by simp
    next
      case 2
      then show ?thesis by simp
    next
      case 3
      then have "d k j = 0"
        using later[of k j] k less.prems by simp
      then show ?thesis using 3 by simp
    qed
  qed simp
  then have s1: "(\<Sum>k<m. coeff T i k * d k j) = coeff T i i * d i j"
    using less.prems by simp
  have "(\<Sum>k<m. d i k * coeff T j k) = (\<Sum>k<m. if k = j then d i j * coeff T j j else 0)"
  proof (rule sum.cong)
    fix k assume "k \<in> {..<m}"
    then have k: "k < m" by simp
    consider "k < j" | "k = j" | "j < k" by linarith
    then show "d i k * coeff T j k = (if k = j then d i j * coeff T j j else 0)"
    proof cases
      case 1
      then have "coeff T j k = 0"
        using T(1,2) less.prems by (simp add: upper_triangular_def)
      then show ?thesis using 1 by simp
    next
      case 2
      then show ?thesis by simp
    next
      case 3
      then have "d i k = 0"
        using later[of i k] k less.prems by simp
      then show ?thesis using 3 by simp
    qed
  qed simp
  then have s2: "(\<Sum>k<m. d i k * coeff T j k) = d i j * coeff T j j"
    using less.prems by simp
  have "coeff T i i * d i j + d i j * coeff T j j = 0"
    using eq[OF less.prems] unfolding s1 s2 .
  then have "(coeff T i i + coeff T j j) * d i j = 0"
    by (simp add: algebra_simps)
  moreover have "coeff T i i + coeff T j j \<noteq> 0"
    using T(1,3) less.prems by (simp add: no_zero_sum_def)
  ultimately show ?case by simp
qed

lemma sylvester_unique:
  assumes T: "is_mat m m T" "upper_triangular T" "no_zero_sum T"
    and Y: "is_mat m m Y" and Z: "is_mat m m Z"
    and eq: "madd (mmul T Y) (mmul Y (mat_transpose T)) = madd (mmul T Z) (mmul Z (mat_transpose T))"
  shows "Y = Z"
proof (rule mat_eqI[OF Y Z])
  fix i j assume ij: "i < m" "j < m"
  have d [simp]: "nrows T = m" "ncols T = m" "nrows Y = m" "ncols Y = m" "nrows Z = m" "ncols Z = m"
    using T(1) Y Z by (simp_all add: is_mat_nrows is_mat_ncols)
  have "coeff Y i j - coeff Z i j = 0"
  proof (rule sylvester_entries_zero[of T m "\<lambda>i j. coeff Y i j - coeff Z i j", OF _ T(2,3) _ ij])
    show "nrows T = m" by simp
    fix r c assume rc: "r < m" "c < m"
    have "coeff (madd (mmul T Y) (mmul Y (mat_transpose T))) r c
        = coeff (madd (mmul T Z) (mmul Z (mat_transpose T))) r c"
      by (simp add: eq)
    then have "(\<Sum>k<m. coeff T r k * coeff Y k c) + (\<Sum>k<m. coeff Y r k * coeff T c k)
        = (\<Sum>k<m. coeff T r k * coeff Z k c) + (\<Sum>k<m. coeff Z r k * coeff T c k)"
      using rc by simp
    then show "(\<Sum>k<m. coeff T r k * (coeff Y k c - coeff Z k c)) +
        (\<Sum>k<m. (coeff Y r k - coeff Z r k) * coeff T c k) = 0"
      by (simp add: right_diff_distrib left_diff_distrib sum_subtractf)
  qed
  then show "coeff Y i j = coeff Z i j" by simp
qed

lemma lyapunov_result_symmetric:
  assumes "real_schur L A = (T, U)" "is_real_schur m A T U"
    and "upper_triangular T" "no_zero_sum T"
    and "lu_exact_triangular L"
    and "is_mat m m Q" "mat_transpose Q = Q" and "0 < m"
  shows "\<exists>X. lyapunov L A Q = Inr X \<and> mat_transpose X = X"
proof -
  have Tmat: "is_mat m m T" and Umat: "is_mat m m U"
    using assms(2) by (simp_all add: is_real_schur_def)
  have d [simp]: "nrows T = m" "ncols T = m" "nrows U = m" "ncols U = m" "nrows Q = m" "ncols Q = m"
    using Tmat Umat assms(6) by (simp_all add: is_mat_nrows is_mat_ncols)
  obtain Y where Y: "lyapunov L A Q = Inr (mmul (mmul U Y) (mat_transpose U))" "is_mat m m Y"
      "madd (mmul T Y) (mmul Y (mat_transpose T)) = mmul (mmul (mat_transpose U) Q) U"
    using lyapunov_triangular[OF assms(1-5) d(5) d(6) assms(8)] by blast
  have Ym [simp]: "nrows Y = m" "ncols Y = m"
    using Y(2) by (simp_all add: is_mat_nrows is_mat_ncols)
  define Q1 where "Q1 = mmul (mmul (mat_transpose U) Q) U"
  have Q1sym: "mat_transpose Q1 = Q1"
    by (simp add: Q1_def transpose_mmul transpose_transpose[OF Umat] assms(7) mmul_assoc)
  have Ytmat: "is_mat m m (mat_transpose Y)"
    using is_mat_transpose[of Y] by simp
  have "madd (mmul T (mat_transpose Y)) (mmul (mat_transpose Y) (mat_transpose T))
      = mat_transpose (madd (mmul Y (mat_transpose T)) (mmul T Y))"
    by (simp add: transpose_madd transpose_mmul transpose_transpose[OF Tmat] madd_commute)
  also have "\<dots> = mat_transpose (madd (mmul T Y) (mmul Y (mat_transpose T)))"
    by (simp add: madd_commute)
  also have "\<dots> = madd (mmul T Y) (mmul Y (mat_transpose T))"
    using Q1sym by (simp add: Y(3) Q1_def)
  finally have "mat_transpose Y = Y"
    by (rule sylvester_unique[OF Tmat assms(3,4) Ytmat Y(2)])
  then have "mat_transpose (mmul (mmul U Y) (mat_transpose U)) = mmul (mmul U Y) (mat_transpose U)"
    by (simp add: transpose_mmul transpose_transpose[OF Umat] mmul_assoc)
  then show ?thesis
    using Y(1) by simp
qed

lemma coeff_rows [simp]: "coeff (mat_of_rows rows) i j = rows ! i ! j"
  by (simp add: coeff_def mat_of_rows_def)

lemma nrows_rows [simp]: "nrows (mat_of_rows rows) = length rows"
  by (simp add: mat_of_rows_def)

lemma ncols_rows [simp]: "ncols (mat_of_rows rows) = length (hd rows)"
  by (simp add: mat_of_rows_def)

lemma is_mat_rows:
  "is_mat r c (mat_of_rows rows) \<longleftrightarrow>
     length rows = r \<and> length (hd rows) = c \<and> list_all (\<lambda>row. length row = c) rows"
  by (auto simp: is_mat_def mat_of_rows_def)

lemma real_schur_ref_lib [simp]: "real_schur (ref_lib rts) A = (A, mat_identity (nrows A) (nrows A))"
  by (simp add: ref_lib_def)

lemma care_residual_Inr:
  assumes "is_mat m m A" "is_mat m m B" "is_mat m m C" "is_mat m m X"
  shows "care_residual A B C X =
    Inr (msub (madd (madd C (mmul X A)) (mmul (mat_transpose A) X)) (mmul (mmul X B) X))"
proof -
  have d [simp]: "nrows A = m" "ncols A = m" "nrows B = m" "ncols B = m"
      "nrows C = m" "ncols C = m" "nrows X = m" "ncols X = m"
    using assms by (simp_all add: is_mat_nrows is_mat_ncols)
  show ?thesis
    by (simp add: care_residual_def)
qed

lemma is_mat_dims: "is_mat (nrows M) (ncols M) M \<Longrightarrow> nrows M = r \<Longrightarrow> ncols M = c \<Longrightarrow> is_mat r c M"
  by simp

lemma newton_direction_equation:
  assumes sh: "is_mat m m A" "is_mat m m B" "is_mat m m X" "is_mat m m RX" and m: "0 < m"
    and S: "real_schur L (mat_transpose (msub A (mmul B X))) = (T, U)"
      "is_real_schur m (mat_transpose (msub A (mmul B X))) T U"
    and T: "upper_triangular T" "no_zero_sum T"
    and L: "lu_exact_triangular L"
  shows "\<exists>H. newton_direction L A B X RX = Inr H \<and> is_mat m m H \<and>
    madd (madd (mmul (mat_transpose (msub A (mmul B X))) H) (mmul H (msub A (mmul B X)))) RX
      = mat_zero m m"
proof -
  define AB where "AB = msub A (mmul B X)"
  have d [simp]: "nrows A = m" "ncols A = m" "nrows B = m" "ncols B = m"
      "nrows RX = m" "ncols RX = m" "nrows X = m" "ncols X = m"
    using sh by (simp_all add: is_mat_nrows is_mat_ncols)
  have ABmat: "is_mat m m AB"
    using is_mat_msub[of A "mmul B X"] by (simp add: AB_def)
  have ABd [simp]: "nrows AB = m" "ncols AB = m"
    by (simp_all add: AB_def)
  have Nmat: "is_mat m m (mat_neg RX)"
    using is_mat_neg[of RX] by simp
  obtain H where H: "lyapunov L (mat_transpose AB) (mat_neg RX) = Inr H" "is_mat m m H"
      "madd (mmul (mat_transpose AB) H) (mmul H (mat_transpose (mat_transpose AB))) = mat_neg RX"
    using lyapunov_solves_AX_XAt[OF S[folded AB_def] T L Nmat m]
    by (auto simp: mat_add_def split: if_splits)
  have Hd [simp]: "nrows H = m" "ncols H = m"
    using H(2) by (simp_all add: is_mat_nrows is_mat_ncols)
  have eq: "madd (mmul (mat_transpose AB) H) (mmul H AB) = mat_neg RX"
    using H(3) by (simp add: transpose_transpose[OF ABmat])
  have "madd (madd (mmul (mat_transpose AB) H) (mmul H AB)) RX = mat_zero m m"
  proof (rule mat_eqI[of m m])
    show "is_mat m m (madd (madd (mmul (mat_transpose AB) H) (mmul H AB)) RX)"
      using is_mat_madd[of "madd (mmul (mat_transpose AB) H) (mmul H AB)" RX] by simp
    show "is_mat m m (mat_zero m m)" by simp
    fix i j assume ij: "i < m" "j < m"
    have "coeff (madd (madd (mmul (mat_transpose AB) H) (mmul H AB)) RX) i j
        = coeff (mat_neg RX) i j + coeff RX i j"
      using ij unfolding eq[symmetric] by simp
    then show "coeff (madd (madd (mmul (mat_transpose AB) H) (mmul H AB)) RX) i j
        = coeff (mat_zero m m) i j"
      using ij by simp
  qed
  moreover have "newton_direction L A B X RX = Inr H"
    by (simp add: newton_direction_def H(1)[unfolded AB_def])
  ultimately show ?thesis
    using H(2) unfolding AB_def by blast
qed

section \<open>Lemmas on the pseudo-inverse\<close>

lemma pinv_loop_step:
  "i < cols \<Longrightarrow> i < length sv \<Longrightarrow> i < length svi \<Longrightarrow>
   pinv_loop sv svi i cols =
     pinv_loop sv (svi[i := (if sv ! i > 1 / 1000000 then 1 / (sv ! i) else 0)]) (i + 1) cols"
  by (subst pinv_loop.simps) simp

lemma pinv_loop_done: "\<not> i < cols \<Longrightarrow> pinv_loop sv svi i cols = Inr svi"
  by (subst pinv_loop.simps) simp

lemma pinv_loop_in_range:
  "cols \<le> length sv \<Longrightarrow> length svi = length sv \<Longrightarrow>
   \<exists>r. pinv_loop sv svi i cols = Inr r \<and> length r = length sv"
proof (induction sv svi i cols rule: pinv_loop.induct)
  case (1 sv svi i cols)
  show ?case
  proof (cases "i < cols")
    case True
    then have "i < length sv" "i < length svi"
      using "1.prems" by simp_all
    then show ?thesis
      using "1.IH" "1.prems" True by (subst pinv_loop.simps) simp
  next
    case False
    then show ?thesis
      using "1.prems" by (subst pinv_loop.simps) simp
  qed
qed

lemma pinv_loop_out_of_range:
  "length sv < cols \<Longrightarrow> length svi = length sv \<Longrightarrow> i \<le> length sv \<Longrightarrow>
   pinv_loop sv svi i cols = Inl IndexOutOfRange"
proof (induction sv svi i cols rule: pinv_loop.induct)
  case (1 sv svi i cols)
  show ?case
  proof (cases "i < length sv")
    case True
    then show ?thesis
      using "1.IH" "1.prems" by (subst pinv_loop.simps) simp
  next
    case False
    then show ?thesis
      using "1.prems" by (subst pinv_loop.simps) simp
  qed
qed

lemma nrows_as_diagonal [simp]: "nrows (as_diagonal v) = length v"
  by (simp add: as_diagonal_def)

lemma ncols_as_diagonal [simp]: "ncols (as_diagonal v) = length v"
  by (simp add: as_diagonal_def)

lemma pinv_wide_fails:
  assumes "svd_shapes L" "nrows M < ncols M"
  shows "pinv L M = Inl IndexOutOfRange"
proof -
  obtain U sv V where s: "jacobi_svd L M = (U, sv, V)"
    by (cases "jacobi_svd L M") auto
  have "length sv = nrows M"
    using assms s unfolding svd_shapes_def by (metis (mono_tags, lifting) case_prod_conv min.absorb1 less_imp_le)
  then have "pinv_loop sv sv 0 (ncols M) = Inl IndexOutOfRange"
    using assms(2) by (intro pinv_loop_out_of_range) simp_all
  then show ?thesis
    by (simp add: pinv_def s)
qed

lemma pinv_tall_fails:
  assumes "svd_shapes L" "ncols M < nrows M"
  shows "pinv L M = Inl DimMismatch"
proof -
  obtain U sv V where s: "jacobi_svd L M = (U, sv, V)"
    by (cases "jacobi_svd L M") auto
  have sh: "nrows U = nrows M" "ncols U = nrows M" "length sv = min (nrows M) (ncols M)"
      "nrows V = ncols M" "ncols V = ncols M"
    using assms(1) s unfolding svd_shapes_def by (metis (mono_tags, lifting) case_prod_conv)+
  have len: "length sv = ncols M"
    using sh(3) assms(2) by simp
  obtain r where r: "pinv_loop sv sv 0 (ncols M) = Inr r" "length r = length sv"
    using pinv_loop_in_range[of "ncols M" sv sv 0] len by auto
  show ?thesis
    using assms(2) by (simp add: pinv_def s r sh len mat_mul_def)
qed

lemma pinv_square_ok:
  assumes "svd_shapes L" "nrows M = n" "ncols M = n"
  shows "\<exists>P. pinv L M = Inr P \<and> is_mat n n P"
proof -
  obtain U sv V where s: "jacobi_svd L M = (U, sv, V)"
    by (cases "jacobi_svd L M") auto
  have sh: "nrows U = nrows M" "ncols U = nrows M" "length sv = min (nrows M) (ncols M)"
      "nrows V = ncols M" "ncols V = ncols M"
    using assms(1) s unfolding svd_shapes_def by (metis (mono_tags, lifting) case_prod_conv)+
  have len: "length sv = n"
    using sh(3) assms by simp
  obtain r where r: "pinv_loop sv sv 0 n = Inr r" "length r = n"
    using pinv_loop_in_range[of n sv sv 0] len by auto
  have "pinv L M = Inr (mmul (mmul V (as_diagonal r)) (mat_transpose U))"
    by (simp add: pinv_def s r sh assms)
  moreover have "is_mat n n (mmul (mmul V (as_diagonal r)) (mat_transpose U))"
    using is_mat_mmul[of "mmul V (as_diagonal r)" "mat_transpose U"] by (simp add: sh assms)
  ultimately show ?thesis by blast
qed

lemma svd_shapes_ref_lib: "svd_shapes (ref_lib rts)"
  by (simp add: svd_shapes_def ref_lib_def)

section \<open>Lemmas on the line search\<close>

lemma poly_eval_5:
  "poly_eval [p0, p1, p2, p3, p4] x = p0 + p1 * x + p2 * x\<^sup>2 + p3 * x ^ 3 + p4 * x ^ 4"
proof (cases "x\<^sup>2 \<le> 1")
  case True
  then show ?thesis
    by (simp add: poly_eval_def poly_eval_horner_def algebra_simps power2_eq_square power3_eq_cube power4_eq_xxxx)
next
  case False
  then have "x \<noteq> 0" by auto
  then show ?thesis
    using False by (simp add: poly_eval_def Let_def field_simps power2_eq_square power3_eq_cube power4_eq_xxxx)
qed










lemma int_of_double_of_int [simp]: "int_of_double (real_of_int n) = n"
  by (simp add: int_of_double_def)

lemma int_of_double_0 [simp]: "int_of_double 0 = 0"
  by (simp add: int_of_double_def)

lemma int_of_double_1 [simp]: "int_of_double 1 = 1"
  by (simp add: int_of_double_def)

lemma poly_eval_int_5: "poly_eval_int [p0, p1, p2, p3, p4] 2 = 16 * int_of_double p4"
  by (simp add: poly_eval_int_def int_div_def Let_def)



lemma visit_zero: "line_search_visit [0, 0, 0, 0, 0] (2, 0) r = (2, 0)"
  by (simp add: line_search_visit_def poly_eval_5 Let_def)

lemma visit_fold_zero: "foldl (line_search_visit [0, 0, 0, 0, 0]) (2, 0) rs = (2, 0)"
  by (induction rs) (simp_all add: visit_zero)

lemma line_search_care_zero: "line_search_care L a b 0 = 2"
  by (simp add: line_search_care_def Let_def poly_eval_5 poly_eval_int_5 visit_fold_zero)

section \<open>Lemmas on the Newton iteration\<close>

lemma lib_shapes_schur:
  assumes "lib_shapes L" "nrows A = m" "ncols A = m" "real_schur L A = (T, U)"
  shows "nrows T = m \<and> ncols T = m \<and> nrows U = m \<and> ncols U = m"
proof -
  have "nrows A = ncols A \<longrightarrow> (case real_schur L A of (T, U) \<Rightarrow>
            nrows T = nrows A \<and> ncols T = nrows A \<and> nrows U = nrows A \<and> ncols U = nrows A)"
    using assms(1) by (simp add: lib_shapes_def)
  then show ?thesis
    using assms(2,3,4) by simp
qed

lemma lib_shapes_lu:
  "lib_shapes L \<Longrightarrow> nrows M = ncols M \<Longrightarrow> ncols b = 1 \<Longrightarrow>
   nrows (lu_solve L M b) = nrows M \<and> ncols (lu_solve L M b) = 1"
  unfolding lib_shapes_def by blast

lemma lyapunov_loop_shape:
  assumes L: "lib_shapes L" and T: "nrows T = m" "ncols T = m"
    and Q1: "nrows Q1 = m" "ncols Q1 = m"
  shows "i < m \<Longrightarrow> nrows X = m \<Longrightarrow> ncols X = m \<Longrightarrow>
         \<exists>Y. lyapunov_loop L T Q1 (mat_identity m m) m i X = Inr Y \<and> nrows Y = m \<and> ncols Y = m"
proof (induction i arbitrary: X)
  case 0
  then show ?case by simp
next
  case (Suc i)
  have i: "i < m" "i + 1 < m"
    using Suc.prems(1) by simp_all
  define M where "M = madd T (mat_scale (coeff T i i) (mat_identity m m))"
  define q where "q = mk_mat m 1 (\<lambda>r _. coeff Q1 r i)"
  define d where "d = m - (i + 1)"
  define Xb where "Xb = mk_mat m d (\<lambda>a b. coeff X (0 + a) (i + 1 + b))"
  define Tb where "Tb = mk_mat 1 d (\<lambda>a b. coeff T (i + a) (i + 1 + b))"
  define v where "v = msub q (mmul Xb (mat_transpose Tb))"
  define x where "x = lu_solve L M v"
  define X' where "X' = mk_mat m m (\<lambda>r l. if l = i then coeff x r 0 else coeff X r l)"
  have e1: "mat_col Q1 i = Inr q"
    using i by (simp add: mat_col_Inr Q1 q_def)
  have e2: "mat_block X 0 (i + 1) m (m - (i + 1)) = Inr Xb"
    using i by (simp add: mat_block_def Suc.prems(2,3) Xb_def d_def)
  have e3: "mat_block T i (i + 1) 1 (m - (i + 1)) = Inr Tb"
    using i by (simp add: mat_block_def T Tb_def d_def)
  have e4: "mat_mul Xb (mat_transpose Tb) = Inr (mmul Xb (mat_transpose Tb))"
    by (simp add: Xb_def Tb_def)
  have e5: "mat_sub q (mmul Xb (mat_transpose Tb)) = Inr v"
    by (simp add: v_def q_def Xb_def Tb_def)
  have e6: "mat_at T i i = Inr (coeff T i i)"
    using i by (simp add: mat_at_Inr T)
  have e7: "mat_add T (mat_scale (coeff T i i) (mat_identity m m)) = Inr M"
    by (simp add: T M_def)
  have e8: "lu_solve_of L M v = Inr x"
    by (simp add: lu_solve_of_def M_def T v_def q_def x_def)
  have xs: "nrows x = m" "ncols x = 1"
    using lib_shapes_lu[OF L, of M v] by (simp_all add: x_def M_def T v_def q_def)
  have e9: "mat_set_col X i x = Inr X'"
    using i by (simp add: mat_set_col_def Suc.prems(2,3) xs X'_def)
  have step: "lyapunov_loop L T Q1 (mat_identity m m) m (Suc i) X
                = lyapunov_loop L T Q1 (mat_identity m m) m i X'"
    by (simp only: lyapunov_loop.simps e1 e2 e3 e4 e5 e6 e7 e8 e9 bind_res_Inr)
  have "\<exists>Y. lyapunov_loop L T Q1 (mat_identity m m) m i X' = Inr Y \<and> nrows Y = m \<and> ncols Y = m"
    by (rule Suc.IH) (use i in \<open>simp_all add: X'_def\<close>)
  then show ?case
    by (simp only: step)
qed

lemma lyapunov_shape:
  assumes L: "lib_shapes L" and A: "nrows A = m" "ncols A = m"
    and Q: "nrows Q = m" "ncols Q = m" and m: "0 < m"
  shows "\<exists>X. lyapunov L A Q = Inr X \<and> is_mat m m X"
proof -
  obtain T U where S: "real_schur L A = (T, U)"
    by (cases "real_schur L A") auto
  have sh: "nrows T = m" "ncols T = m" "nrows U = m" "ncols U = m"
    using lib_shapes_schur[OF L A S] by simp_all
  define Q1 where "Q1 = mmul (mmul (mat_transpose U) Q) U"
  define M where "M = madd T (mat_scale (coeff T (m - 1) (m - 1)) (mat_identity m m))"
  define q where "q = mk_mat m 1 (\<lambda>r _. coeff Q1 r (m - 1))"
  define x where "x = lu_solve L M q"
  define X0 where
    "X0 = mk_mat m m (\<lambda>r l. if l = m - 1 then coeff x r 0 else coeff (mat_zero m m) r l)"
  have Q1m: "nrows Q1 = m" "ncols Q1 = m"
    by (simp_all add: Q1_def sh)
  have e1: "schur_of L A = Inr (T, U)"
    by (simp add: schur_of_def A S)
  have e2: "mat_mul (mat_transpose U) Q = Inr (mmul (mat_transpose U) Q)"
    by (simp add: sh Q)
  have e3: "mat_mul (mmul (mat_transpose U) Q) U = Inr Q1"
    by (simp add: sh Q Q1_def)
  have e4: "mat_at T (m - 1) (m - 1) = Inr (coeff T (m - 1) (m - 1))"
    using m by (simp add: mat_at_Inr sh)
  have e5: "mat_add T (mat_scale (coeff T (m - 1) (m - 1)) (mat_identity m m)) = Inr M"
    by (simp add: sh M_def)
  have e6: "mat_col Q1 (m - 1) = Inr q"
    using m by (simp add: mat_col_Inr Q1m q_def)
  have e7: "lu_solve_of L M q = Inr x"
    by (simp add: lu_solve_of_def M_def sh q_def x_def)
  have xs: "nrows x = m" "ncols x = 1"
    using lib_shapes_lu[OF L, of M q] by (simp_all add: x_def M_def sh q_def)
  have e8: "mat_set_col (mat_zero m m) (m - 1) x = Inr X0"
    using m by (simp add: mat_set_col_def xs X0_def)
  have "\<exists>Y. lyapunov_loop L T Q1 (mat_identity m m) m (m - 1) X0 = Inr Y \<and> nrows Y = m \<and> ncols Y = m"
    by (rule lyapunov_loop_shape[OF L sh(1,2) Q1m]) (use m in \<open>simp_all add: X0_def\<close>)
  then obtain Y where Y: "lyapunov_loop L T Q1 (mat_identity m m) m (m - 1) X0 = Inr Y"
      "nrows Y = m" "ncols Y = m"
    by blast
  have e10: "mat_mul U Y = Inr (mmul U Y)"
    by (simp add: sh Y)
  have e11: "mat_mul (mmul U Y) (mat_transpose U) = Inr (mmul (mmul U Y) (mat_transpose U))"
    by (simp add: sh Y)
  have m0: "m \<noteq> 0" using m by simp
  have "lyapunov L A Q = Inr (mmul (mmul U Y) (mat_transpose U))"
    unfolding lyapunov_def Let_def Q(1)
    by (simp only: e1 e2 e3 e4 e5 e6 e7 e8 Y(1) e10 e11 bind_res_Inr prod.case m0 if_False)
  moreover have "is_mat m m (mmul (mmul U Y) (mat_transpose U))"
    using is_mat_mmul[of "mmul U Y" "mat_transpose U"] by (simp add: sh)
  ultimately show ?thesis by blast
qed


lemma newton_loop_continue:
  "tol < err \<Longrightarrow> k < kmax \<Longrightarrow> newton_body L A B C X = Inr (X', err', tk) \<Longrightarrow>
   newton_loop L A B C X err k out = newton_loop L A B C X' err' (k + 1) (out @ [Err_step err' tk])"
  by (subst newton_loop.simps) simp

lemma newton_loop_fail:
  "tol < err \<Longrightarrow> k < kmax \<Longrightarrow> newton_body L A B C X = Inl e \<Longrightarrow>
   newton_loop L A B C X err k out = Inl e"
  by (subst newton_loop.simps) simp

lemma newton_loop_stop:
  "\<not> (tol < err \<and> k < kmax) \<Longrightarrow> newton_loop L A B C X err k out = Inr (X, err, k, out)"
  by (subst newton_loop.simps) auto

lemma newton_body_Inr:
  assumes "newton_body L A B C X = Inr (X', err, tk)"
  shows "\<exists>RX H. care_residual A B C X = Inr RX \<and> newton_direction L A B X RX = Inr H \<and>
    err = mat_norm RX \<and> X' = madd X (mat_scale tk H) \<and>
    tk = line_search_care L (mat_trace (mmul RX RX)) (mat_trace (mmul RX (mmul (mmul H B) H)))
           (mat_trace (mmul (mmul (mmul H B) H) (mmul (mmul H B) H)))"
  using assms unfolding newton_body_def
  by (auto simp: bind_res_eq_Inr mat_mul_def mat_add_def Let_def split: if_splits)

lemma newton_direction_shape:
  assumes L: "lib_shapes L" and sh: "nrows A = m" "ncols A = m" "nrows B = m" "ncols B = m"
      "nrows X = m" "ncols X = m" "nrows RX = m" "ncols RX = m" and m: "0 < m"
  shows "\<exists>H. newton_direction L A B X RX = Inr H \<and> is_mat m m H"
proof -
  have "\<exists>H. lyapunov L (mat_transpose (msub A (mmul B X))) (mat_neg RX) = Inr H \<and> is_mat m m H"
    by (rule lyapunov_shape[OF L _ _ _ _ m]) (simp_all add: sh)
  then show ?thesis
    by (simp add: newton_direction_def sh)
qed

lemma newton_body_shape:
  assumes L: "lib_shapes L" and sh: "nrows A = m" "ncols A = m" "nrows B = m" "ncols B = m"
      "nrows C = m" "ncols C = m" "nrows X = m" "ncols X = m" and m: "0 < m"
  shows "\<exists>X' err tk. newton_body L A B C X = Inr (X', err, tk) \<and> is_mat m m X'"
proof -
  define RX where "RX = msub (madd (madd C (mmul X A)) (mmul (mat_transpose A) X)) (mmul (mmul X B) X)"
  have r: "care_residual A B C X = Inr RX"
    by (simp add: care_residual_def sh RX_def)
  have RXs: "nrows RX = m" "ncols RX = m"
    by (simp_all add: RX_def sh)
  obtain H where H: "newton_direction L A B X RX = Inr H" "is_mat m m H"
    using newton_direction_shape[OF L sh(1-4) sh(7,8) RXs m] by blast
  have Hs: "nrows H = m" "ncols H = m"
    using H(2) by (simp_all add: is_mat_nrows is_mat_ncols)
  define tk where "tk = line_search_care L (mat_trace (mmul RX RX))
      (mat_trace (mmul RX (mmul (mmul H B) H)))
      (mat_trace (mmul (mmul (mmul H B) H) (mmul (mmul H B) H)))"
  have "newton_body L A B C X = Inr (madd X (mat_scale tk H), mat_norm RX, tk)"
    by (simp add: newton_body_def r H(1) Hs sh RXs Let_def tk_def)
  moreover have "is_mat m m (madd X (mat_scale tk H))"
    using is_mat_madd[of X "mat_scale tk H"] by (simp add: sh)
  ultimately show ?thesis by blast
qed

lemma newton_loop_terminates:
  assumes L: "lib_shapes L" and sh: "nrows A = m" "ncols A = m" "nrows B = m" "ncols B = m"
      "nrows C = m" "ncols C = m" and m: "0 < m"
  shows "is_mat m m X \<Longrightarrow> k \<le> kmax \<Longrightarrow>
    \<exists>X' err' k' out'. newton_loop L A B C X err k out = Inr (X', err', k', out') \<and>
      is_mat m m X' \<and> k \<le> k' \<and> k' \<le> kmax \<and> (err' \<le> tol \<or> k' = kmax) \<and>
      length out' = length out + (k' - k)"
proof (induction "kmax - k" arbitrary: X err k out)
  case 0
  then have "\<not> (tol < err \<and> k < kmax)" by simp
  then have "newton_loop L A B C X err k out = Inr (X, err, k, out)"
    by (rule newton_loop_stop)
  then show ?case
    using 0 by simp
next
  case (Suc n)
  show ?case
  proof (cases "tol < err")
    case False
    then have "newton_loop L A B C X err k out = Inr (X, err, k, out)"
      by (simp add: newton_loop_stop)
    then show ?thesis
      using Suc.prems False by simp
  next
    case True
    have k: "k < kmax" using Suc.hyps(2) by simp
    have Xs: "nrows X = m" "ncols X = m"
      using Suc.prems(1) by (simp_all add: is_mat_nrows is_mat_ncols)
    obtain X1 err1 tk where b: "newton_body L A B C X = Inr (X1, err1, tk)" "is_mat m m X1"
      using newton_body_shape[OF L sh Xs m] by blast
    have step: "newton_loop L A B C X err k out
        = newton_loop L A B C X1 err1 (k + 1) (out @ [Err_step err1 tk])"
      by (rule newton_loop_continue[OF True k b(1)])
    have "\<exists>X' err' k' out'.
        newton_loop L A B C X1 err1 (k + 1) (out @ [Err_step err1 tk]) = Inr (X', err', k', out') \<and>
        is_mat m m X' \<and> k + 1 \<le> k' \<and> k' \<le> kmax \<and> (err' \<le> tol \<or> k' = kmax) \<and>
        length out' = length (out @ [Err_step err1 tk]) + (k' - (k + 1))"
      by (rule Suc.hyps(1)) (use Suc.hyps(2) b(2) k in simp_all)
    then show ?thesis
      unfolding step by auto
  qed
qed


lemma tol_less_dbl_max: "tol < dbl_max"
proof -
  have "(1::real) \<le> 2 - 1 / 2 ^ 52" by simp
  moreover have "(1::real) \<le> 2 ^ 1023" by (rule one_le_power) simp
  ultimately have "(1::real) * 1 \<le> (2 - 1 / 2 ^ 52) * 2 ^ 1023"
    by (rule mult_mono) simp_all
  then show ?thesis by (simp add: tol_def dbl_max_def)
qed

lemma newton_loop_invariant:
  "newton_loop L A B C X err k out = Inr (X', err', k', out') \<Longrightarrow>
   (err' \<le> tol \<or> \<not> k' < kmax) \<and> k \<le> k' \<and> (k \<le> kmax \<longrightarrow> k' \<le> kmax) \<and>
   ((k' = k \<and> X' = X \<and> err' = err \<and> out' = out) \<or>
    (k < k' \<and> (\<exists>Xp tk pre. newton_body L A B C Xp = Inr (X', err', tk) \<and>
                              out' = pre @ [Err_step err' tk]))) \<and>
   (\<forall>e t. Err_step e t \<in> set out' \<longrightarrow>
      Err_step e t \<in> set out \<or> (\<exists>Xq Xn. newton_body L A B C Xq = Inr (Xn, e, t)))"
proof (induction "kmax - k" arbitrary: X err k out)
  case 0
  then have "\<not> (tol < err \<and> k < kmax)" by simp
  then have "newton_loop L A B C X err k out = Inr (X, err, k, out)"
    by (rule newton_loop_stop)
  then show ?case
    using 0 by auto
next
  case (Suc n)
  show ?case
  proof (cases "tol < err \<and> k < kmax")
    case False
    then have "newton_loop L A B C X err k out = Inr (X, err, k, out)"
      by (rule newton_loop_stop)
    then show ?thesis
      using Suc.prems False by auto
  next
    case True
    show ?thesis
    proof (cases "newton_body L A B C X")
      case (Inl e)
      then have "newton_loop L A B C X err k out = Inl e"
        using True by (simp add: newton_loop_fail)
      then show ?thesis using Suc.prems by simp
    next
      case (Inr r)
      obtain X1 err1 tk where r: "r = (X1, err1, tk)" by (cases r)
      have b: "newton_body L A B C X = Inr (X1, err1, tk)"
        using Inr r by simp
      have step: "newton_loop L A B C X err k out
          = newton_loop L A B C X1 err1 (k + 1) (out @ [Err_step err1 tk])"
        using True by (intro newton_loop_continue b) simp_all
      have n: "n = kmax - (k + 1)" using Suc.hyps(2) by simp
      have ih: "(err' \<le> tol \<or> \<not> k' < kmax) \<and> k + 1 \<le> k' \<and>
         (k + 1 \<le> kmax \<longrightarrow> k' \<le> kmax) \<and>
         ((k' = k + 1 \<and> X' = X1 \<and> err' = err1 \<and> out' = out @ [Err_step err1 tk]) \<or>
          (k + 1 < k' \<and> (\<exists>Xp tk pre. newton_body L A B C Xp = Inr (X', err', tk) \<and>
                              out' = pre @ [Err_step err' tk]))) \<and>
         (\<forall>e t. Err_step e t \<in> set out' \<longrightarrow>
            Err_step e t \<in> set (out @ [Err_step err1 tk]) \<or>
            (\<exists>Xq Xn. newton_body L A B C Xq = Inr (Xn, e, t)))"
        by (rule Suc.hyps(1)[OF n]) (use Suc.prems step in simp)
      have c1: "err' \<le> tol \<or> \<not> k' < kmax" and c2: "k \<le> k'" and lt: "k < k'"
        and c5: "k \<le> kmax \<longrightarrow> k' \<le> kmax"
        using ih True by auto
      have c3: "\<exists>Xp tk pre. newton_body L A B C Xp = Inr (X', err', tk) \<and>
                              out' = pre @ [Err_step err' tk]"
        using ih b by blast
      have c4: "\<forall>e t. Err_step e t \<in> set out' \<longrightarrow>
          Err_step e t \<in> set out \<or> (\<exists>Xq Xn. newton_body L A B C Xq = Inr (Xn, e, t))"
        using ih b by auto
      show ?thesis
        using c1 c2 lt c3 c4 c5 by blast
    qed
  qed
qed

lemma newton_ls_care_Inr:
  assumes "newton_ls_care L A B C X0 = Inr (X, msgs)"
  shows "\<exists>eig err k out. newton_loop L A B C X0 dbl_max 0 [Init_X0 eig] = Inr (X, err, k, out) \<and>
      msgs = out @ [Care_took k] @ (if k = kmax then [Care_not_solved err] else [])"
proof -
  obtain eig r where r: "newton_loop L A B C X0 dbl_max 0 [Init_X0 eig] = Inr r"
      "(case r of (X, err, k, out) \<Rightarrow>
          Inr (X, out @ [Care_took k] @ (if k = kmax then [Care_not_solved err] else [])))
        = (Inr (X, msgs) :: error + matrix \<times> diag list)"
    using assms unfolding newton_ls_care_def by (auto simp: bind_res_eq_Inr)
  obtain X1 err k out where t: "r = (X1, err, k, out)"
    by (cases r)
  have "X1 = X" "msgs = out @ [Care_took k] @ (if k = kmax then [Care_not_solved err] else [])"
    using r(2) unfolding t by simp_all
  then show ?thesis
    using r(1) t by blast
qed

lemma newton_ls_care_returns:
  assumes "lib_shapes L" and "0 < m"
    and "is_mat m m A" and "is_mat m m B" and "is_mat m m C" and "is_mat m m X0"
  shows "\<exists>X k err out.
           newton_ls_care L A B C X0 =
             Inr (X, out @ [Care_took k] @ (if k = 20 then [Care_not_solved err] else [])) \<and>
           is_mat m m X \<and> k \<le> 20 \<and> (err \<le> 1 / 100000 \<or> k = 20) \<and> length out = 1 + k"
proof -
  have sh: "nrows A = m" "ncols A = m" "nrows B = m" "ncols B = m" "nrows C = m" "ncols C = m"
    and X0: "nrows X0 = m" "ncols X0 = m"
    using assms(3-6) by (simp_all add: is_mat_nrows is_mat_ncols)
  define eig where "eig = eigenvalues L (msub A (mmul B X0))"
  obtain X err k out where lp:
      "newton_loop L A B C X0 dbl_max 0 [Init_X0 eig] = Inr (X, err, k, out)"
      "is_mat m m X" "k \<le> kmax" "err \<le> tol \<or> k = kmax" "length out = length [Init_X0 eig] + (k - 0)"
    using newton_loop_terminates[OF assms(1) sh assms(2) assms(6), of 0 dbl_max "[Init_X0 eig]"]
    by auto
  have "newton_ls_care L A B C X0 =
      Inr (X, out @ [Care_took k] @ (if k = kmax then [Care_not_solved err] else []))"
    by (simp add: newton_ls_care_def sh X0 eigenvalues_of_def eig_def[symmetric] lp(1))
  then show ?thesis
    using lp(2-5) unfolding kmax_def tol_def by auto
qed

lemma newton_loop_trace:
  assumes L: "lib_shapes L" and sh: "nrows A = m" "ncols A = m" "nrows B = m" "ncols B = m"
      "nrows C = m" "ncols C = m" and m: "0 < m"
  shows "is_mat m m X \<Longrightarrow> k \<le> kmax \<Longrightarrow>
    \<exists>X' err' k' steps. newton_loop L A B C X err k out = Inr (X', err', k', out @ steps) \<and>
      is_mat m m X' \<and> k' \<le> kmax \<and> k' = k + length steps \<and> (err' \<le> tol \<or> k' = kmax) \<and>
      (steps = [] \<longrightarrow> err' = err \<and> X' = X) \<and>
      (steps \<noteq> [] \<longrightarrow> tol < err \<and> (\<exists>t. last steps = Err_step err' t) \<and>
         (\<forall>d\<in>set (butlast steps). \<exists>e t. d = Err_step e t \<and> tol < e))"
proof (induction "kmax - k" arbitrary: X err k out)
  case 0
  then have "\<not> (tol < err \<and> k < kmax)" by simp
  then have "newton_loop L A B C X err k out = Inr (X, err, k, out @ [])"
    by (simp add: newton_loop_stop)
  then show ?case
    using 0 by (intro exI[of _ X] exI[of _ err] exI[of _ k] exI[of _ "[]"]) simp
next
  case (Suc n)
  show ?case
  proof (cases "tol < err")
    case False
    then have "newton_loop L A B C X err k out = Inr (X, err, k, out @ [])"
      by (simp add: newton_loop_stop)
    then show ?thesis
      using Suc.prems False by (intro exI[of _ X] exI[of _ err] exI[of _ k] exI[of _ "[]"]) simp
  next
    case True
    have k: "k < kmax" using Suc.hyps(2) by simp
    have Xs: "nrows X = m" "ncols X = m"
      using Suc.prems(1) by (simp_all add: is_mat_nrows is_mat_ncols)
    obtain X1 err1 tk where b: "newton_body L A B C X = Inr (X1, err1, tk)" "is_mat m m X1"
      using newton_body_shape[OF L sh Xs m] by blast
    have step: "newton_loop L A B C X err k out
        = newton_loop L A B C X1 err1 (k + 1) (out @ [Err_step err1 tk])"
      by (rule newton_loop_continue[OF True k b(1)])
    have "\<exists>X' err' k' steps.
        newton_loop L A B C X1 err1 (k + 1) (out @ [Err_step err1 tk])
          = Inr (X', err', k', (out @ [Err_step err1 tk]) @ steps) \<and>
        is_mat m m X' \<and> k' \<le> kmax \<and> k' = k + 1 + length steps \<and> (err' \<le> tol \<or> k' = kmax) \<and>
        (steps = [] \<longrightarrow> err' = err1 \<and> X' = X1) \<and>
        (steps \<noteq> [] \<longrightarrow> tol < err1 \<and> (\<exists>t. last steps = Err_step err' t) \<and>
           (\<forall>d\<in>set (butlast steps). \<exists>e t. d = Err_step e t \<and> tol < e))"
      by (rule Suc.hyps(1)) (use Suc.hyps(2) b(2) k in simp_all)
    then obtain X' err' k' steps where r:
        "newton_loop L A B C X1 err1 (k + 1) (out @ [Err_step err1 tk])
          = Inr (X', err', k', (out @ [Err_step err1 tk]) @ steps)"
        "is_mat m m X'" "k' \<le> kmax" "k' = k + 1 + length steps" "err' \<le> tol \<or> k' = kmax"
        "steps = [] \<longrightarrow> err' = err1 \<and> X' = X1"
        "steps \<noteq> [] \<longrightarrow> tol < err1 \<and> (\<exists>t. last steps = Err_step err' t) \<and>
           (\<forall>d\<in>set (butlast steps). \<exists>e t. d = Err_step e t \<and> tol < e)"
      by blast
    define all where "all = Err_step err1 tk # steps"
    have e: "newton_loop L A B C X err k out = Inr (X', err', k', out @ all)"
      unfolding step r(1) by (simp add: all_def)
    have lastp: "\<exists>t. last all = Err_step err' t"
      using r(6,7) by (cases "steps = []") (simp_all add: all_def)
    have pre: "\<forall>d\<in>set (butlast all). \<exists>e t. d = Err_step e t \<and> tol < e"
      using r(7) by (cases "steps = []") (simp_all add: all_def)
    have "is_mat m m X' \<and> k' \<le> kmax \<and> k' = k + length all \<and> (err' \<le> tol \<or> k' = kmax) \<and>
      (all = [] \<longrightarrow> err' = err \<and> X' = X) \<and>
      (all \<noteq> [] \<longrightarrow> tol < err \<and> (\<exists>t. last all = Err_step err' t) \<and>
         (\<forall>d\<in>set (butlast all). \<exists>e t. d = Err_step e t \<and> tol < e))"
      using r(2,3,4,5) True lastp pre by (simp add: all_def)
    then show ?thesis
      using e by blast
  qed
qed

lemma mmul_zero_left: "nrows B = k \<Longrightarrow> mmul (mat_zero m k) B = mat_zero m (ncols B)"
  by (rule mat_eqI[of m "ncols B"]) (use is_mat_mmul[of "mat_zero m k" B] in simp_all)

lemma mmul_zero_right: "ncols A = k \<Longrightarrow> mmul A (mat_zero k m) = mat_zero (nrows A) m"
  by (rule mat_eqI[of "nrows A" m]) (use is_mat_mmul[of A "mat_zero k m"] in simp_all)

lemma mat_trace_zero [simp]: "mat_trace (mat_zero m k) = 0"
  by (simp add: mat_trace_def)

lemma mat_norm_zero [simp]: "mat_norm (mat_zero m k) = 0"
  by (simp add: mat_norm_def)

lemma madd_scale_zero:
  assumes "is_mat m k X"
  shows "madd X (mat_scale t (mat_zero m k)) = X"
proof (rule mat_eqI[of m k])
  have d: "nrows X = m" "ncols X = k"
    using assms by (simp_all add: is_mat_nrows is_mat_ncols)
  show "is_mat m k (madd X (mat_scale t (mat_zero m k)))"
    using is_mat_madd[of X "mat_scale t (mat_zero m k)"] by (simp add: d)
  fix i j assume "i < m" "j < k"
  then show "coeff (madd X (mat_scale t (mat_zero m k))) i j = coeff X i j"
    by (simp add: d)
qed (rule assms)

lemma newton_first_update_aux:
  "newton_loop L A B C X0 dbl_max 0 out =
     (case newton_body L A B C X0 of
        Inl e \<Rightarrow> Inl e
      | Inr (X', err', tk) \<Rightarrow> newton_loop L A B C X' err' 1 (out @ [Err_step err' tk])) \<and>
   (is_mat m m A \<and> is_mat m m B \<and> is_mat m m C \<and> is_mat m m X0 \<and>
    care_residual A B C X0 = Inr (mat_zero m m) \<and>
    newton_direction L A B X0 (mat_zero m m) = Inr H \<and> is_mat m m H \<longrightarrow>
      (let V = mmul (mmul H B) H;
           tk = line_search_care L 0 0 (mat_trace (mmul V V))
       in newton_ls_care L A B C X0 =
            Inr (madd X0 (mat_scale tk H),
                 [Init_X0 (eigenvalues L (msub A (mmul B X0))), Err_step 0 tk, Care_took 1]) \<and>
          (H = mat_zero m m \<longrightarrow> tk = 2 \<and> madd X0 (mat_scale tk H) = X0)))"
proof (intro conjI impI)
  show "newton_loop L A B C X0 dbl_max 0 out =
     (case newton_body L A B C X0 of
        Inl e \<Rightarrow> Inl e
      | Inr (X', err', tk) \<Rightarrow> newton_loop L A B C X' err' 1 (out @ [Err_step err' tk]))"
    using tol_less_dbl_max by (subst newton_loop.simps) (auto simp: kmax_def split: sum.splits)
next
  assume a: "is_mat m m A \<and> is_mat m m B \<and> is_mat m m C \<and> is_mat m m X0 \<and>
    care_residual A B C X0 = Inr (mat_zero m m) \<and>
    newton_direction L A B X0 (mat_zero m m) = Inr H \<and> is_mat m m H"
  have sh [simp]: "nrows A = m" "ncols A = m" "nrows B = m" "ncols B = m" "nrows C = m" "ncols C = m"
     "nrows X0 = m" "ncols X0 = m" "nrows H = m" "ncols H = m"
    using a by (auto dest: is_mat_nrows is_mat_ncols)
  define V where "V = mmul (mmul H B) H"
  define tk where "tk = line_search_care L 0 0 (mat_trace (mmul V V))"
  define X1 where "X1 = madd X0 (mat_scale tk H)"
  have z1: "mmul (mat_zero m m) (mat_zero m m) = mat_zero m m"
    using mmul_zero_left[of "mat_zero m m" m m] by simp
  have z2: "mmul (mat_zero m m) V = mat_zero m m"
    using mmul_zero_left[of V m m] by (simp add: V_def)
  have Vs: "nrows V = m" "ncols V = m"
    by (simp_all add: V_def)
  have e1: "care_residual A B C X0 = Inr (mat_zero m m)"
    and e2: "newton_direction L A B X0 (mat_zero m m) = Inr H"
    using a by simp_all
  have e3: "mat_mul H B = Inr (mmul H B)"
    by simp
  have e4: "mat_mul (mmul H B) H = Inr V"
    by (simp add: V_def)
  have e5: "mat_mul (mat_zero m m) (mat_zero m m) = Inr (mat_zero m m)"
    by (simp add: z1)
  have e6: "mat_mul (mat_zero m m) V = Inr (mat_zero m m)"
    by (simp add: Vs z2)
  have e7: "mat_mul V V = Inr (mmul V V)"
    by (simp add: Vs)
  have e8: "mat_add X0 (mat_scale tk H) = Inr X1"
    by (simp add: X1_def)
  have body: "newton_body L A B C X0 = Inr (X1, 0, tk)"
    unfolding newton_body_def
    by (simp only: e1 e2 e3 e4 e5 e6 e7 e8 bind_res_Inr Let_def mat_trace_zero mat_norm_zero
        tk_def[symmetric])
  have l1: "newton_loop L A B C X0 dbl_max 0 [Init_X0 eig] =
      newton_loop L A B C X1 0 (0 + 1) ([Init_X0 eig] @ [Err_step 0 tk])" for eig
    using tol_less_dbl_max by (intro newton_loop_continue body) (simp_all add: kmax_def)
  have l2: "newton_loop L A B C X1 0 (0 + 1) ([Init_X0 eig] @ [Err_step 0 tk]) =
      Inr (X1, 0, 0 + 1, [Init_X0 eig] @ [Err_step 0 tk])" for eig
    by (rule newton_loop_stop) (simp add: tol_def)
  have lp: "newton_loop L A B C X0 dbl_max 0 [Init_X0 eig] =
      Inr (X1, 0, 1, [Init_X0 eig, Err_step 0 tk])" for eig
    using l1[of eig] l2[of eig] by simp
  have res: "newton_ls_care L A B C X0 =
      Inr (X1, [Init_X0 (eigenvalues L (msub A (mmul B X0))), Err_step 0 tk, Care_took 1])"
    by (simp add: newton_ls_care_def eigenvalues_of_def lp kmax_def)
  have zero: "tk = 2 \<and> X1 = X0" if H: "H = mat_zero m m"
  proof -
    have "V = mat_zero m m"
      using mmul_zero_left[of B m m] mmul_zero_left[of "mat_zero m m" m m]
      by (simp add: V_def H)
    then have "tk = 2"
      by (simp add: tk_def z1 line_search_care_zero)
    moreover have "X1 = X0"
      unfolding X1_def H using a by (intro madd_scale_zero) simp
    ultimately show ?thesis by simp
  qed
  show "let V = mmul (mmul H B) H;
           tk = line_search_care L 0 0 (mat_trace (mmul V V))
       in newton_ls_care L A B C X0 =
            Inr (madd X0 (mat_scale tk H),
                 [Init_X0 (eigenvalues L (msub A (mmul B X0))), Err_step 0 tk, Care_took 1]) \<and>
          (H = mat_zero m m \<longrightarrow> tk = 2 \<and> madd X0 (mat_scale tk H) = X0)"
    using res zero unfolding Let_def V_def tk_def X1_def by blast
qed

lemma lib_shapes_ref_lib: "lib_shapes (ref_lib rts)"
  by (simp add: lib_shapes_def svd_shapes_ref_lib) (simp add: ref_lib_def)

lemma mat_norm_1x1: "nrows M = 1 \<Longrightarrow> ncols M = 1 \<Longrightarrow> mat_norm M = \<bar>coeff M 0 0\<bar>"
  by (simp add: mat_norm_def)

lemma newton_body_eval:
  assumes "care_residual A B C X = Inr RX" and "newton_direction L A B X RX = Inr H"
    and "nrows RX = m" "ncols RX = m" "nrows H = m" "ncols H = m" "nrows B = m" "ncols B = m"
      "nrows X = m" "ncols X = m"
    and "mmul (mmul H B) H = V"
    and "mat_trace (mmul RX RX) = a" "mat_trace (mmul RX V) = b" "mat_trace (mmul V V) = c"
    and "line_search_care L a b c = tk"
  shows "newton_body L A B C X = Inr (madd X (mat_scale tk H), mat_norm RX, tk)"
proof -
  have Vs: "nrows V = m" "ncols V = m"
    using assms(11) assms(5,6) by auto
  have e3: "mat_mul H B = Inr (mmul H B)"
    by (simp add: assms)
  have e4: "mat_mul (mmul H B) H = Inr V"
    by (simp add: assms)
  have e5: "mat_mul RX RX = Inr (mmul RX RX)"
    by (simp add: assms)
  have e6: "mat_mul RX V = Inr (mmul RX V)"
    by (simp add: assms Vs)
  have e7: "mat_mul V V = Inr (mmul V V)"
    by (simp add: Vs)
  have e8: "mat_add X (mat_scale tk H) = Inr (madd X (mat_scale tk H))"
    by (simp add: assms)
  show ?thesis
    unfolding newton_body_def
    by (simp only: assms(1,2,12-15) e3 e4 e5 e6 e7 e8 bind_res_Inr Let_def)
qed

lemma eps_body:
  "newton_body (ref_lib (\<lambda>p. map complex_of_real [2000000 / 2000001, - 2000000000000 / 2000001, - 2000000]))
     (mat_of_rows [[- 1]]) (mat_of_rows [[1]]) (mat_of_rows [[2000001 / 1000000000000]])
     (mat_of_rows [[0]])
   = Inr (mat_of_rows [[1 / 1000000]], 2000001 / 1000000000000, 2000000 / 2000001)"
proof -
  let ?L = "ref_lib (\<lambda>p. map complex_of_real [2000000 / 2000001, - 2000000000000 / 2000001, - 2000000])"
  let ?A = "mat_of_rows [[- 1]]" and ?B = "mat_of_rows [[1]]"
  let ?C = "mat_of_rows [[2000001 / 1000000000000]]" and ?X = "mat_of_rows [[0]]"
  let ?H = "mat_of_rows [[2000001 / 2000000000000]]"
  let ?V = "mat_of_rows [[(2000001 / 2000000000000)\<^sup>2]]"
  have r: "care_residual ?A ?B ?C ?X = Inr ?C"
    by code_simp
  have h: "newton_direction ?L ?A ?B ?X ?C = Inr ?H"
    by code_simp
  have v: "mmul (mmul ?H ?B) ?H = ?V"
    by code_simp
  have a: "mat_trace (mmul ?C ?C) = (2000001 / 1000000000000)\<^sup>2"
    by (simp add: mat_trace_def mmul_def mk_mat_def coeff_def mat_of_rows_def power2_eq_square)
  have b: "mat_trace (mmul ?C ?V) = (2000001 / 1000000000000) * (2000001 / 2000000000000)\<^sup>2"
    by (simp add: mat_trace_def mmul_def mk_mat_def coeff_def mat_of_rows_def power2_eq_square)
  have c: "mat_trace (mmul ?V ?V) = ((2000001 / 2000000000000)\<^sup>2)\<^sup>2"
    by (simp add: mat_trace_def mmul_def mk_mat_def coeff_def mat_of_rows_def power2_eq_square)
  have t: "line_search_care ?L ((2000001 / 1000000000000)\<^sup>2)
      ((2000001 / 1000000000000) * (2000001 / 2000000000000)\<^sup>2)
      (((2000001 / 2000000000000)\<^sup>2)\<^sup>2) = 2000000 / 2000001"
    by (simp add: line_search_care_def Let_def poly_eval_5 poly_eval_int_5 line_search_visit_def ref_lib_def
        power2_eq_square power3_eq_cube power4_eq_xxxx)
  have "newton_body ?L ?A ?B ?C ?X
      = Inr (madd ?X (mat_scale (2000000 / 2000001) ?H), mat_norm ?C, 2000000 / 2000001)"
    by (rule newton_body_eval[where m = 1, OF r h _ _ _ _ _ _ _ _ v a b c t]) simp_all
  moreover have "madd ?X (mat_scale (2000000 / 2000001) ?H) = mat_of_rows [[1 / 1000000]]"
    by code_simp
  moreover have "mat_norm ?C = 2000001 / 1000000000000"
    by (simp add: mat_norm_1x1)
  ultimately show ?thesis by simp
qed


lemma newton_ls_care_one_step:
  assumes "mat_mul B X0 = Inr BX" "mat_sub A BX = Inr ABX" "eigenvalues_of L ABX = Inr eig"
    and "newton_body L A B C X0 = Inr (X1, err1, tk)" and "err1 \<le> tol"
  shows "newton_ls_care L A B C X0 = Inr (X1, [Init_X0 eig, Err_step err1 tk, Care_took 1])"
proof -
  have "newton_loop L A B C X0 dbl_max 0 [Init_X0 eig] =
      newton_loop L A B C X1 err1 (0 + 1) ([Init_X0 eig] @ [Err_step err1 tk])"
    using tol_less_dbl_max by (intro newton_loop_continue assms(4)) (simp_all add: kmax_def)
  also have "\<dots> = Inr (X1, err1, 0 + 1, [Init_X0 eig] @ [Err_step err1 tk])"
    by (rule newton_loop_stop) (use assms(5) in simp)
  finally have "newton_loop L A B C X0 dbl_max 0 [Init_X0 eig] =
      Inr (X1, err1, 1, [Init_X0 eig, Err_step err1 tk])"
    by simp
  then show ?thesis
    by (simp add: newton_ls_care_def assms(1-3) kmax_def)
qed

lemma osc_body_0:
  "newton_body (ref_lib (\<lambda>p. [])) (mat_of_rows [[- 1]]) (mat_of_rows [[0]]) (mat_of_rows [[2]])
     (mat_of_rows [[0]]) = Inr (mat_of_rows [[2]], 2, 2)"
proof -
  let ?L = "ref_lib (\<lambda>p. [])"
  let ?A = "mat_of_rows [[- 1]]" and ?B = "mat_of_rows [[0]]"
  let ?C = "mat_of_rows [[2]]" and ?X = "mat_of_rows [[0]]"
  have r: "care_residual ?A ?B ?C ?X = Inr (mat_of_rows [[2]])"
    by code_simp
  have h: "newton_direction ?L ?A ?B ?X (mat_of_rows [[2]]) = Inr (mat_of_rows [[1]])"
    by code_simp
  have v: "mmul (mmul (mat_of_rows [[1]]) ?B) (mat_of_rows [[1]]) = mat_of_rows [[0]]"
    by code_simp
  have a: "mat_trace (mmul (mat_of_rows [[2]]) (mat_of_rows [[2]])) = 4"
    by (simp add: mat_trace_def mmul_def mk_mat_def coeff_def mat_of_rows_def)
  have b: "mat_trace (mmul (mat_of_rows [[2]]) (mat_of_rows [[0]])) = 0"
    by (simp add: mat_trace_def mmul_def mk_mat_def coeff_def mat_of_rows_def)
  have c: "mat_trace (mmul (mat_of_rows [[0]]) (mat_of_rows [[0]])) = 0"
    by (simp add: mat_trace_def mmul_def mk_mat_def coeff_def mat_of_rows_def)
  have "newton_body ?L ?A ?B ?C ?X
      = Inr (madd ?X (mat_scale 2 (mat_of_rows [[1]])), mat_norm (mat_of_rows [[2]]), 2)"
    by (rule newton_body_eval[where m = 1, OF r h _ _ _ _ _ _ _ _ v a b c line_search_care_zero])
      simp_all
  moreover have "madd ?X (mat_scale 2 (mat_of_rows [[1]])) = mat_of_rows [[2]]"
    by code_simp
  moreover have "mat_norm (mat_of_rows [[2]]) = 2"
    by (simp add: mat_norm_1x1)
  ultimately show ?thesis by simp
qed

lemma osc_body_2:
  "newton_body (ref_lib (\<lambda>p. [])) (mat_of_rows [[- 1]]) (mat_of_rows [[0]]) (mat_of_rows [[2]])
     (mat_of_rows [[2]]) = Inr (mat_of_rows [[0]], 2, 2)"
proof -
  let ?L = "ref_lib (\<lambda>p. [])"
  let ?A = "mat_of_rows [[- 1]]" and ?B = "mat_of_rows [[0]]"
  let ?C = "mat_of_rows [[2]]" and ?X = "mat_of_rows [[2]]"
  have r: "care_residual ?A ?B ?C ?X = Inr (mat_of_rows [[- 2]])"
    by code_simp
  have h: "newton_direction ?L ?A ?B ?X (mat_of_rows [[- 2]]) = Inr (mat_of_rows [[- 1]])"
    by code_simp
  have v: "mmul (mmul (mat_of_rows [[- 1]]) ?B) (mat_of_rows [[- 1]]) = mat_of_rows [[0]]"
    by code_simp
  have a: "mat_trace (mmul (mat_of_rows [[- 2]]) (mat_of_rows [[- 2]])) = 4"
    by (simp add: mat_trace_def mmul_def mk_mat_def coeff_def mat_of_rows_def)
  have b: "mat_trace (mmul (mat_of_rows [[- 2]]) (mat_of_rows [[0]])) = 0"
    by (simp add: mat_trace_def mmul_def mk_mat_def coeff_def mat_of_rows_def)
  have c: "mat_trace (mmul (mat_of_rows [[0]]) (mat_of_rows [[0]])) = 0"
    by (simp add: mat_trace_def mmul_def mk_mat_def coeff_def mat_of_rows_def)
  have "newton_body ?L ?A ?B ?C ?X
      = Inr (madd ?X (mat_scale 2 (mat_of_rows [[- 1]])), mat_norm (mat_of_rows [[- 2]]), 2)"
    by (rule newton_body_eval[where m = 1, OF r h _ _ _ _ _ _ _ _ v a b c line_search_care_zero])
      simp_all
  moreover have "madd ?X (mat_scale 2 (mat_of_rows [[- 1]])) = mat_of_rows [[0]]"
    by code_simp
  moreover have "mat_norm (mat_of_rows [[- 2]]) = 2"
    by (simp add: mat_norm_1x1)
  ultimately show ?thesis by simp
qed

lemma osc_loop:
  "tol < err \<Longrightarrow> k + 2 * n \<le> kmax \<Longrightarrow>
   newton_loop (ref_lib (\<lambda>p. [])) (mat_of_rows [[- 1]]) (mat_of_rows [[0]]) (mat_of_rows [[2]])
     (mat_of_rows [[0]]) err k out =
   newton_loop (ref_lib (\<lambda>p. [])) (mat_of_rows [[- 1]]) (mat_of_rows [[0]]) (mat_of_rows [[2]])
     (mat_of_rows [[0]]) (if n = 0 then err else 2) (k + 2 * n)
     (out @ replicate (2 * n) (Err_step 2 2))"
proof (induction n arbitrary: err k out)
  case 0
  then show ?case by simp
next
  case (Suc n)
  let ?L = "ref_lib (\<lambda>p. [])"
  let ?A = "mat_of_rows [[- 1]]" and ?B = "mat_of_rows [[0]]" and ?C = "mat_of_rows [[2]]"
  have k: "k < kmax" "k + 1 < kmax" "k + 2 + 2 * n \<le> kmax"
    using Suc.prems(2) by simp_all
  have t2: "tol < 2" by (simp add: tol_def)
  have "newton_loop ?L ?A ?B ?C (mat_of_rows [[0]]) err k out
      = newton_loop ?L ?A ?B ?C (mat_of_rows [[2]]) 2 (k + 1) (out @ [Err_step 2 2])"
    by (rule newton_loop_continue[OF Suc.prems(1) k(1) osc_body_0])
  also have "\<dots> = newton_loop ?L ?A ?B ?C (mat_of_rows [[0]]) 2 (k + 1 + 1)
      ((out @ [Err_step 2 2]) @ [Err_step 2 2])"
    by (rule newton_loop_continue[OF t2 k(2) osc_body_2])
  also have "\<dots> = newton_loop ?L ?A ?B ?C (mat_of_rows [[0]]) 2 (k + 2)
      (out @ [Err_step 2 2, Err_step 2 2])"
    by simp
  also have "\<dots> = newton_loop ?L ?A ?B ?C (mat_of_rows [[0]]) (if n = 0 then 2 else 2)
      (k + 2 + 2 * n) ((out @ [Err_step 2 2, Err_step 2 2]) @ replicate (2 * n) (Err_step 2 2))"
    by (rule Suc.IH[OF t2 k(3)])
  finally show ?case
    by (simp add: replicate_append_same[symmetric] del: replicate_Suc replicate.simps)
      (simp add: replicate_append_same)
qed

lemma osc_run:
  "newton_ls_care (ref_lib (\<lambda>p. [])) (mat_of_rows [[- 1]]) (mat_of_rows [[0]]) (mat_of_rows [[2]])
     (mat_of_rows [[0]]) =
   Inr (mat_of_rows [[0]],
        Init_X0 [- 1] # replicate 20 (Err_step 2 2) @ [Care_took 20, Care_not_solved 2])"
proof -
  let ?L = "ref_lib (\<lambda>p. [])"
  let ?A = "mat_of_rows [[- 1]]" and ?B = "mat_of_rows [[0]]" and ?C = "mat_of_rows [[2]]"
  have e1: "mat_mul ?B (mat_of_rows [[0]]) = Inr (mat_of_rows [[0]])"
    by code_simp
  have e2: "mat_sub ?A (mat_of_rows [[0]]) = Inr (mat_of_rows [[- 1]])"
    by code_simp
  have e3: "eigenvalues_of ?L (mat_of_rows [[- 1]]) = Inr [- 1]"
    by (simp add: eigenvalues_of_def ref_lib_def)
  have "newton_loop ?L ?A ?B ?C (mat_of_rows [[0]]) dbl_max 0 [Init_X0 [- 1]]
      = newton_loop ?L ?A ?B ?C (mat_of_rows [[0]]) (if (10::nat) = 0 then dbl_max else 2) (0 + 2 * 10)
          ([Init_X0 [- 1]] @ replicate (2 * 10) (Err_step 2 2))"
    by (rule osc_loop[OF tol_less_dbl_max]) (simp add: kmax_def)
  also have "\<dots> = newton_loop ?L ?A ?B ?C (mat_of_rows [[0]]) 2 20
      (Init_X0 [- 1] # replicate 20 (Err_step 2 2))"
    by simp
  also have "\<dots> = Inr (mat_of_rows [[0]], 2, 20, Init_X0 [- 1] # replicate 20 (Err_step 2 2))"
    by (rule newton_loop_stop) (simp add: kmax_def)
  finally show ?thesis
    by (simp add: newton_ls_care_def e1 e2 e3 kmax_def)
qed

section \<open>Lemmas on the regulator\<close>

lemma newton_loop_out:
  "newton_loop L A B C X err k out = Inr (X', err', k', out') \<Longrightarrow>
   \<exists>steps. out' = out @ steps \<and> (\<forall>d\<in>set steps. \<exists>e t. d = Err_step e t)"
proof (induction "kmax - k" arbitrary: X err k out)
  case 0
  then have "\<not> (tol < err \<and> k < kmax)" by simp
  then have "newton_loop L A B C X err k out = Inr (X, err, k, out)"
    by (rule newton_loop_stop)
  then show ?case
    using 0 by auto
next
  case (Suc n)
  show ?case
  proof (cases "tol < err \<and> k < kmax")
    case False
    then have "newton_loop L A B C X err k out = Inr (X, err, k, out)"
      by (rule newton_loop_stop)
    then show ?thesis
      using Suc.prems by auto
  next
    case True
    show ?thesis
    proof (cases "newton_body L A B C X")
      case (Inl e)
      then have "newton_loop L A B C X err k out = Inl e"
        using True by (simp add: newton_loop_fail)
      then show ?thesis using Suc.prems by simp
    next
      case (Inr r)
      obtain X1 err1 tk where r: "r = (X1, err1, tk)" by (cases r)
      have b: "newton_body L A B C X = Inr (X1, err1, tk)"
        using Inr r by simp
      have step: "newton_loop L A B C X err k out
          = newton_loop L A B C X1 err1 (k + 1) (out @ [Err_step err1 tk])"
        using True by (intro newton_loop_continue b) simp_all
      have n: "n = kmax - (k + 1)" using Suc.hyps(2) by simp
      obtain steps where st: "out' = (out @ [Err_step err1 tk]) @ steps"
          "\<forall>d\<in>set steps. \<exists>e t. d = Err_step e t"
        using Suc.hyps(1)[OF n] Suc.prems step by metis
      have "out' = out @ (Err_step err1 tk # steps)"
        using st(1) by simp
      moreover have "\<forall>d\<in>set (Err_step err1 tk # steps). \<exists>e t. d = Err_step e t"
        using st(2) by simp
      ultimately show ?thesis by blast
    qed
  qed
qed

lemma newton_ls_care_msgs:
  assumes "newton_ls_care L A B C X0 = Inr (X, msgs)"
  shows "(\<exists>k. Care_took k \<in> set msgs) \<and> Positivity_failed \<notin> set msgs"
proof -
  obtain eig err k out where lp: "newton_loop L A B C X0 dbl_max 0 [Init_X0 eig] = Inr (X, err, k, out)"
      and msgs: "msgs = out @ [Care_took k] @ (if k = kmax then [Care_not_solved err] else [])"
    using newton_ls_care_Inr[OF assms] by blast
  obtain steps where st: "out = [Init_X0 eig] @ steps" "\<forall>d\<in>set steps. \<exists>e t. d = Err_step e t"
    using newton_loop_out[OF lp] by blast
  have "Positivity_failed \<notin> set steps"
    using st(2) by auto
  then show ?thesis
    by (auto simp: msgs st(1))
qed

lemma care_msgs:
  assumes "care L A B C = Inr (S, msgs)"
  shows "(\<exists>k. Care_took k \<in> set msgs) \<and> Positivity_failed \<notin> set msgs"
proof -
  obtain X0 where "newton_ls_care L A B C X0 = Inr (S, msgs)"
    using assms unfolding care_def by (auto simp: bind_res_eq_Inr)
  then show ?thesis by (rule newton_ls_care_msgs)
qed

lemma lqr_synthesis_Inr:
  assumes "lqr_synthesis L sys Q R M = Inr (K, out)"
  shows "\<exists>invR A B C S cout res.
           pinv L R = Inr invR \<and> riccati_A sys M invR = Inr A \<and> riccati_B sys invR = Inr B \<and>
           riccati_C Q M invR = Inr C \<and> care L A B C = Inr (S, cout) \<and>
           care_equation A B C S = Inr res \<and> lqr_gain sys M invR S = Inr K \<and>
           out = [Show_matrix ''A'' A, Show_matrix ''B'' B, Show_matrix ''C'' C] @ cout @
                   [Show_matrix ''CARE solution'' res, Show_matrix ''S'' S]"
  using assms
  unfolding lqr_synthesis_def riccati_A_def riccati_B_def riccati_C_def lqr_gain_def
    care_equation_def op_mul_def op_add_def op_sub_def
  by (auto simp: bind_res_eq_Inr split: prod.splits)

lemma lqr_synthesis_eval:
  assumes "pinv L R = Inr invR" "riccati_A sys M invR = Inr A" "riccati_B sys invR = Inr B"
    and "riccati_C Q M invR = Inr C" "care L A B C = Inr (S, cout)"
    and "care_equation A B C S = Inr res" "lqr_gain sys M invR S = Inr K"
  shows "lqr_synthesis L sys Q R M =
     Inr (K, [Show_matrix ''A'' A, Show_matrix ''B'' B, Show_matrix ''C'' C] @ cout @
             [Show_matrix ''CARE solution'' res, Show_matrix ''S'' S])"
  using assms
  unfolding lqr_synthesis_def riccati_A_def riccati_B_def riccati_C_def lqr_gain_def care_equation_def
    op_mul_def op_add_def op_sub_def
  by (auto simp: bind_res_eq_Inr)

lemma lqr_synthesis_msgs:
  assumes "lqr_synthesis L sys Q R M = Inr (K, out)"
  shows "(\<exists>k. Care_took k \<in> set out) \<and> Positivity_failed \<notin> set out"
proof -
  obtain A B C S cout res where c: "care L A B C = Inr (S, cout)"
      "out = [Show_matrix ''A'' A, Show_matrix ''B'' B, Show_matrix ''C'' C] @ cout @
              [Show_matrix ''CARE solution'' res, Show_matrix ''S'' S]"
    using lqr_synthesis_Inr[OF assms] by auto
  show ?thesis
    using care_msgs[OF c(1)] by (auto simp: c(2))
qed

lemma lqr_check_True:
  assumes "pinv L R = Inr pR" "mat_mul M pR = Inr MP" "mat_mul MP (mat_transpose M) = Inr MPM"
    "mat_sub Q MPM = Inr QR" "\<exists>z\<in>set (eigenvalues L QR). Re z < 0"
  shows "lqr_check L Q R M = Inr True"
proof -
  have "MP = mmul M pR" "MPM = mmul MP (mat_transpose M)" "QR = msub Q MPM"
      "nrows Q = nrows MPM" "ncols Q = ncols MPM"
    using assms(2,3,4) by (auto simp: mat_mul_def mat_sub_def split: if_splits)
  then have "nrows QR = ncols QR"
    by simp
  then have "eigenvalues_of L QR = Inr (eigenvalues L QR)"
    by (simp add: eigenvalues_of_def)
  then show ?thesis
    using assms(5) by (simp add: lqr_check_def assms(1-4) list_ex_iff)
qed

lemma lqr_check_QR:
  assumes "lqr_QR L Q R M = Inr QR" "\<exists>z\<in>set (eigenvalues L QR). Re z < 0"
  shows "lqr_check L Q R M = Inr True"
proof -
  obtain pR MP MPM where "pinv L R = Inr pR" "mat_mul M pR = Inr MP"
      "mat_mul MP (mat_transpose M) = Inr MPM" "mat_sub Q MPM = Inr QR"
    using assms(1) unfolding lqr_QR_def op_mul_def op_sub_def
    by (auto simp: bind_res_eq_Inr)
  then show ?thesis
    using assms(2) by (rule lqr_check_True)
qed

lemma init_newton_care_shape:
  assumes L: "lib_shapes L" and m: "0 < m"
    and sh: "nrows A = m" "ncols A = m" "nrows B = m" "ncols B = m"
  shows "\<exists>X. init_newton_care L A B = Inr X \<and> is_mat m m X"
proof -
  obtain TA U where S: "real_schur L A = (TA, U)"
    by (cases "real_schur L A") auto
  have ts: "nrows TA = m" "ncols TA = m" "nrows U = m" "ncols U = m"
    using lib_shapes_schur[OF L sh(1,2) S] by simp_all
  have e1: "schur_of L A = Inr (TA, U)"
    by (simp add: schur_of_def sh S)
  define TD where "TD = mmul (mat_transpose U) B"
  have TDs: "nrows TD = m" "ncols TD = m"
    by (simp_all add: TD_def ts sh)
  have e2: "mat_mul (mat_transpose U) B = Inr TD"
    by (simp add: TD_def ts sh)
  have len: "length (eigenvalues L TA) = m"
    using L ts by (simp add: lib_shapes_def)
  have e3: "eigenvalues_of L TA = Inr (eigenvalues L TA)"
    by (simp add: eigenvalues_of_def ts)
  have ne: "map Re (eigenvalues L TA) \<noteq> []"
    using len m by auto
  define b where "b = max (- Min (set (map Re (eigenvalues L TA)))) 0 + 1 / 2"
  define TAb where "TAb = madd TA (mat_scale b (mat_identity m m))"
  define TT where "TT = mmul (mat_scale 2 TD) (mat_transpose TD)"
  have e4: "mat_add TA (mat_scale b (mat_identity m m)) = Inr TAb"
    by (simp add: TAb_def ts)
  have e5: "mat_mul (mat_scale 2 TD) (mat_transpose TD) = Inr TT"
    by (simp add: TT_def TDs)
  obtain Z where Z: "lyapunov L TAb TT = Inr Z" "is_mat m m Z"
    using lyapunov_shape[OF L _ _ _ _ m, of TAb TT] by (auto simp: TAb_def TT_def ts TDs)
  have Zs: "nrows Z = m" "ncols Z = m"
    using Z(2) by (simp_all add: is_mat_nrows is_mat_ncols)
  have sv: "svd_shapes L"
    using L by (simp add: lib_shapes_def)
  obtain pZ where pZ: "pinv L Z = Inr pZ" "is_mat m m pZ"
    using pinv_square_ok[OF sv Zs] by blast
  have pZs: "nrows pZ = m" "ncols pZ = m"
    using pZ(2) by (simp_all add: is_mat_nrows is_mat_ncols)
  define TpZ where "TpZ = mmul (mat_transpose TD) pZ"
  define X where "X = mmul TpZ (mat_transpose U)"
  define D where "D = msub X (mat_transpose X)"
  have e6: "mat_mul (mat_transpose TD) pZ = Inr TpZ"
    by (simp add: TpZ_def TDs pZs)
  have e7: "mat_mul TpZ (mat_transpose U) = Inr X"
    by (simp add: X_def TpZ_def ts pZs)
  have Xs: "nrows X = m" "ncols X = m"
    by (simp_all add: X_def TpZ_def ts TDs)
  have e8: "mat_sub X (mat_transpose X) = Inr D"
    by (simp add: D_def Xs)
  have X_mat: "is_mat m m X"
    using is_mat_mmul[of TpZ "mat_transpose U"] by (simp add: X_def TpZ_def ts TDs)
  define ABX where "ABX = msub A (mmul B X)"
  define Mm where "Mm = madd (mmul (mmul (mat_transpose X) B) X) (mat_scale (1 / 2) (mat_identity m m))"
  have e9: "mat_mul (mat_transpose X) B = Inr (mmul (mat_transpose X) B)"
      "mat_mul (mmul (mat_transpose X) B) X = Inr (mmul (mmul (mat_transpose X) B) X)"
      "mat_add (mmul (mmul (mat_transpose X) B) X) (mat_scale (1 / 2) (mat_identity m m)) = Inr Mm"
      "mat_mul B X = Inr (mmul B X)" "mat_sub A (mmul B X) = Inr ABX"
    by (simp_all add: Xs sh Mm_def ABX_def)
  obtain X2 where X2: "lyapunov L (mat_transpose ABX) (mat_neg Mm) = Inr X2" "is_mat m m X2"
    using lyapunov_shape[OF L _ _ _ _ m, of "mat_transpose ABX" "mat_neg Mm"]
    by (auto simp: ABX_def Mm_def sh Xs)
  have "init_newton_care L A B = (if mat_norm D > 1 / 10 ^ 12 then Inr X2 else Inr X)"
    unfolding init_newton_care_def Let_def sh
    by (simp only: e1 e2 e3 e4 e5 e6 e7 e8 e9 Z(1) pZ(1) X2(1) ne b_def[symmetric]
          bind_res_Inr prod.case if_False)
  then show ?thesis
    using X2(2) X_mat by auto
qed

lemma care_shape:
  assumes L: "lib_shapes L" and m: "0 < m"
    and A: "is_mat m m A" and B: "is_mat m m B" and C: "is_mat m m C"
  shows "\<exists>S msgs. care L A B C = Inr (S, msgs) \<and> is_mat m m S"
proof -
  have sh: "nrows A = m" "ncols A = m" "nrows B = m" "ncols B = m"
    using A B by (simp_all add: is_mat_nrows is_mat_ncols)
  obtain X0 where X0: "init_newton_care L A B = Inr X0" "is_mat m m X0"
    using init_newton_care_shape[OF L m sh] by blast
  obtain X msgs where "newton_ls_care L A B C X0 = Inr (X, msgs)" "is_mat m m X"
    using newton_ls_care_returns[OF L m A B C X0(2)] by blast
  then show ?thesis
    by (simp add: care_def X0(1))
qed

lemma lqr_synthesis_square:
  assumes L: "lib_shapes L" and m: "0 < m"
    and F: "is_mat m m (F sys)" and G: "is_mat m m (G sys)"
    and Q: "is_mat m m Q" and R: "is_mat m m R" and M: "is_mat m m M"
  shows "\<exists>K out. lqr_synthesis L sys Q R M = Inr (K, out) \<and> is_mat m m K"
proof -
  have sh: "nrows (F sys) = m" "ncols (F sys) = m" "nrows (G sys) = m" "ncols (G sys) = m"
      "nrows Q = m" "ncols Q = m" "nrows R = m" "ncols R = m" "nrows M = m" "ncols M = m"
    using F G Q R M by (simp_all add: is_mat_nrows is_mat_ncols)
  have sv: "svd_shapes L"
    using L by (simp add: lib_shapes_def)
  obtain invR where invR: "pinv L R = Inr invR" "is_mat m m invR"
    using pinv_square_ok[OF sv sh(7,8)] by blast
  have iRs: "nrows invR = m" "ncols invR = m"
    using invR(2) by (simp_all add: is_mat_nrows is_mat_ncols)
  define A where "A = msub (F sys) (mmul (mmul M invR) (mat_transpose (G sys)))"
  define B where "B = mmul (mmul (G sys) invR) (mat_transpose (G sys))"
  define C where "C = madd (mmul (mmul M invR) M) Q"
  have mats: "is_mat m m A" "is_mat m m B" "is_mat m m C"
    using is_mat_msub[of "F sys" "mmul (mmul M invR) (mat_transpose (G sys))"]
      is_mat_mmul[of "mmul (G sys) invR" "mat_transpose (G sys)"]
      is_mat_madd[of "mmul (mmul M invR) M" Q]
    by (simp_all add: A_def B_def C_def sh)
  have ABC: "nrows A = m" "ncols A = m" "nrows B = m" "ncols B = m" "nrows C = m" "ncols C = m"
    by (simp_all add: A_def B_def C_def sh)
  obtain S cout where S: "care L A B C = Inr (S, cout)" "is_mat m m S"
    using care_shape[OF L m mats] by blast
  have Ss: "nrows S = m" "ncols S = m"
    using S(2) by (simp_all add: is_mat_nrows is_mat_ncols)
  define K where "K = mmul invR (madd (mmul (mat_transpose (G sys)) S) (mat_transpose M))"
  have "\<exists>out. lqr_synthesis L sys Q R M = Inr (K, out)"
    unfolding lqr_synthesis_def
    by (simp add: invR(1) iRs sh A_def[symmetric] B_def[symmetric] C_def[symmetric] S(1) ABC Ss K_def)
  moreover have "is_mat m m K"
    using is_mat_mmul[of invR "madd (mmul (mat_transpose (G sys)) S) (mat_transpose M)"]
    by (simp add: K_def iRs Ss)
  ultimately show ?thesis by blast
qed

lemma pinv_ref_one: "pinv (ref_lib rts) (mat_of_rows [[1]]) = Inr (mat_of_rows [[1]])"
proof -
  have svd: "jacobi_svd (ref_lib rts) (mat_of_rows [[1]]) = (mat_identity 1 1, [1], mat_identity 1 1)"
    by (simp add: ref_lib_def mat_of_rows_def coeff_def)
  have lp: "pinv_loop [1] [1] 0 1 = Inr [1]"
    by (simp add: pinv_loop_step pinv_loop_done)
  have m: "bind_res (mat_mul (mat_identity 1 1) (as_diagonal [1]))
             (\<lambda>VD. mat_mul VD (mat_transpose (mat_identity 1 1))) = Inr (mat_of_rows [[1]])"
    by code_simp
  have c: "ncols (mat_of_rows [[1::real]]) = 1"
    by (simp add: mat_of_rows_def)
  show ?thesis
    unfolding pinv_def svd prod.case c lp bind_res_Inr by (rule m)
qed

lemma pinv_ref_zero: "pinv (ref_lib rts) (mat_of_rows [[0]]) = Inr (mat_of_rows [[0]])"
proof -
  have svd: "jacobi_svd (ref_lib rts) (mat_of_rows [[0]]) = (mat_identity 1 1, [0], mat_identity 1 1)"
    by (simp add: ref_lib_def mat_of_rows_def coeff_def)
  have lp: "pinv_loop [0] [0] 0 1 = Inr [0]"
    by (simp add: pinv_loop_step pinv_loop_done)
  have m: "bind_res (mat_mul (mat_identity 1 1) (as_diagonal [0]))
             (\<lambda>VD. mat_mul VD (mat_transpose (mat_identity 1 1))) = Inr (mat_of_rows [[0]])"
    by code_simp
  have c: "ncols (mat_of_rows [[0::real]]) = 1"
    by (simp add: mat_of_rows_def)
  show ?thesis
    unfolding pinv_def svd prod.case c lp bind_res_Inr by (rule m)
qed

lemma init_newton_care_eval:
  assumes "schur_of L A = Inr (TA, U)" "mat_mul (mat_transpose U) B = Inr TD"
    and "eigenvalues_of L TA = Inr es" "es \<noteq> []"
    and "max (- Min (set (map Re es))) 0 + 1 / 2 = b"
    and "mat_add TA (mat_scale b (mat_identity (nrows A) (nrows A))) = Inr TAb"
    and "mat_mul (mat_scale 2 TD) (mat_transpose TD) = Inr TT"
    and "lyapunov L TAb TT = Inr Z" "pinv L Z = Inr pZ"
    and "mat_mul (mat_transpose TD) pZ = Inr TpZ" "mat_mul TpZ (mat_transpose U) = Inr X"
    and "mat_sub X (mat_transpose X) = Inr D" "mat_norm D \<le> 1 / 10 ^ 12"
  shows "init_newton_care L A B = Inr X"
proof -
  have ne: "map Re es \<noteq> []"
    using assms(4) by simp
  have n: "\<not> mat_norm D > 1 / 10 ^ 12"
    using assms(13) by simp
  show ?thesis
    unfolding init_newton_care_def Let_def
    by (simp only: assms(1-3) assms(5-12) ne n bind_res_Inr prod.case if_False)
qed

lemma init_newton_care_example:
  "init_newton_care (ref_lib (\<lambda>p. [])) (mat_of_rows [[- 1]]) (mat_of_rows [[0]]) = Inr (mat_of_rows [[0]])"
proof -
  let ?L = "ref_lib (\<lambda>p. [])"
  let ?A = "mat_of_rows [[- 1]]" and ?Z = "mat_of_rows [[0]]"
  have e1: "schur_of ?L ?A = Inr (?A, mat_identity 1 1)"
    by (simp add: schur_of_def ref_lib_def mat_of_rows_def)
  have e2: "mat_mul (mat_transpose (mat_identity 1 1)) ?Z = Inr ?Z"
    by code_simp
  have e3: "eigenvalues_of ?L ?A = Inr [complex_of_real (- 1)]"
    by (simp add: eigenvalues_of_def ref_lib_def mat_of_rows_def coeff_def)
  have e5: "max (- Min (set (map Re [complex_of_real (- 1)]))) 0 + 1 / 2 = (3 / 2 :: real)"
    by simp
  have e6: "mat_add ?A (mat_scale (3 / 2) (mat_identity (nrows ?A) (nrows ?A))) = Inr (mat_of_rows [[1 / 2]])"
    by code_simp
  have e7: "mat_mul (mat_scale 2 ?Z) (mat_transpose ?Z) = Inr ?Z"
    by code_simp
  have e8: "lyapunov ?L (mat_of_rows [[1 / 2]]) ?Z = Inr ?Z"
    by code_simp
  have e9: "pinv ?L ?Z = Inr ?Z"
    by (rule pinv_ref_zero)
  have e10: "mat_mul (mat_transpose ?Z) ?Z = Inr ?Z"
    by code_simp
  have e11: "mat_mul ?Z (mat_transpose (mat_identity 1 1)) = Inr ?Z"
    by code_simp
  have e12: "mat_sub ?Z (mat_transpose ?Z) = Inr ?Z"
    by code_simp
  have e13: "mat_norm ?Z \<le> 1 / 10 ^ 12"
    by (simp add: mat_norm_1x1 mat_of_rows_def coeff_def)
  show ?thesis
    by (rule init_newton_care_eval[OF e1 e2 e3 _ e5 e6 e7 e8 e9 e10 e11 e12 e13]) simp
qed

lemma care_example:
  "care (ref_lib (\<lambda>p. [])) (mat_of_rows [[- 1]]) (mat_of_rows [[0]]) (mat_of_rows [[0]])
     = Inr (mat_of_rows [[0]], [Init_X0 [- 1], Err_step 0 2, Care_took 1])"
proof -
  let ?L = "ref_lib (\<lambda>p. [])"
  let ?A = "mat_of_rows [[- 1]]" and ?Z = "mat_of_rows [[0]]"
  have z: "?Z = mat_zero 1 1"
    by code_simp
  have A: "is_mat 1 1 ?A" and Z: "is_mat 1 1 ?Z"
    by (simp_all add: is_mat_rows)
  have r: "care_residual ?A ?Z ?Z ?Z = Inr ?Z"
    by code_simp
  have h: "newton_direction ?L ?A ?Z ?Z ?Z = Inr ?Z"
    by code_simp
  have e: "eigenvalues ?L (msub ?A (mmul ?Z ?Z)) = [- 1]"
    by (simp add: ref_lib_def msub_def mmul_def mk_mat_def coeff_def mat_of_rows_def)
  have hyp: "is_mat 1 1 ?A \<and> is_mat 1 1 ?Z \<and> is_mat 1 1 ?Z \<and> is_mat 1 1 ?Z \<and>
      care_residual ?A ?Z ?Z ?Z = Inr (mat_zero 1 1) \<and>
      newton_direction ?L ?A ?Z ?Z (mat_zero 1 1) = Inr ?Z \<and> is_mat 1 1 ?Z"
    using A Z r h z by simp
  note t = newton_first_update_aux[of ?L ?A ?Z ?Z ?Z "[]" 1 ?Z]
  have "newton_ls_care ?L ?A ?Z ?Z ?Z = Inr (?Z, [Init_X0 [- 1], Err_step 0 2, Care_took 1])"
    using t hyp z unfolding Let_def e by (metis (no_types, lifting))
  then show ?thesis
    by (simp add: care_def init_newton_care_example)
qed

lemma lqr_synthesis_example:
  "lqr_synthesis (ref_lib (\<lambda>p. [])) \<lparr>F = mat_of_rows [[- 1]], G = mat_of_rows [[0]]\<rparr>
      (mat_of_rows [[- 1]]) (mat_of_rows [[1]]) (mat_of_rows [[1]]) =
     Inr (mat_of_rows [[1]],
          [Show_matrix ''A'' (mat_of_rows [[- 1]]), Show_matrix ''B'' (mat_of_rows [[0]]),
           Show_matrix ''C'' (mat_of_rows [[0]]), Init_X0 [- 1], Err_step 0 2, Care_took 1,
           Show_matrix ''CARE solution'' (mat_of_rows [[0]]), Show_matrix ''S'' (mat_of_rows [[0]])])"
proof -
  let ?L = "ref_lib (\<lambda>p. [])"
  let ?sys = "\<lparr>F = mat_of_rows [[- 1]], G = mat_of_rows [[0]]\<rparr>"
  let ?I = "mat_of_rows [[1]]" and ?N = "mat_of_rows [[- 1]]" and ?Z = "mat_of_rows [[0]]"
  have e1: "pinv ?L ?I = Inr ?I"
    by (rule pinv_ref_one)
  have e2: "riccati_A ?sys ?I ?I = Inr ?N"
    by code_simp
  have e3: "riccati_B ?sys ?I = Inr ?Z"
    by code_simp
  have e4: "riccati_C ?N ?I ?I = Inr ?Z"
    by code_simp
  have e5: "care_equation ?N ?Z ?Z ?Z = Inr ?Z"
    by code_simp
  have e6: "lqr_gain ?sys ?I ?I ?Z = Inr ?I"
    by code_simp
  show ?thesis
    using lqr_synthesis_eval[OF e1 e2 e3 e4 care_example e5 e6] by simp
qed

lemma lqr_QR_example:
  "lqr_QR (ref_lib (\<lambda>p. [])) (mat_of_rows [[- 1]]) (mat_of_rows [[1]]) (mat_of_rows [[1]])
     = Inr (mat_of_rows [[- 2]])"
proof -
  have "op_sub (Inr (mat_of_rows [[- 1]]))
          (op_mul (op_mul (Inr (mat_of_rows [[1]])) (Inr (mat_of_rows [[1]])))
             (Inr (mat_transpose (mat_of_rows [[1]])))) = Inr (mat_of_rows [[- 2]])"
    by code_simp
  then show ?thesis
    by (simp only: lqr_QR_def pinv_ref_one)
qed

lemma bind_res_fail:
  "x = Inl e \<or> (\<exists>y. x = Inr y) \<Longrightarrow> (\<And>y. f y = Inl e) \<Longrightarrow> bind_res x f = Inl e"
  by auto

lemma mat_mul_total: "mat_mul P P' = Inl DimMismatch \<or> (\<exists>y. mat_mul P P' = Inr y)"
  by (simp add: mat_mul_def)

lemma mat_sub_total: "mat_sub P P' = Inl DimMismatch \<or> (\<exists>y. mat_sub P P' = Inr y)"
  by (simp add: mat_sub_def)

lemma lqr_synthesis_not_square:
  assumes L: "lib_shapes L" and R: "nrows R = ncols R" and M: "nrows M \<noteq> ncols M"
  shows "lqr_synthesis L sys Q R M = Inl DimMismatch"
proof -
  have sv: "svd_shapes L"
    using L by (simp add: lib_shapes_def)
  obtain invR where invR: "pinv L R = Inr invR" "is_mat (nrows R) (nrows R) invR"
    using pinv_square_ok[OF sv refl R[symmetric]] by blast
  have iRs: "nrows invR = nrows R" "ncols invR = nrows R"
    using invR(2) by (simp_all add: is_mat_nrows is_mat_ncols)
  show ?thesis
  proof (cases "ncols M = nrows R")
    case False
    then have "mat_mul M invR = Inl DimMismatch"
      by (simp add: mat_mul_def iRs)
    then show ?thesis
      by (simp add: lqr_synthesis_def invR(1))
  next
    case True
    then have bad: "mat_mul (mmul M invR) M = Inl DimMismatch"
      using M by (simp add: mat_mul_def iRs)
    have ok: "mat_mul M invR = Inr (mmul M invR)"
      using True by (simp add: mat_mul_def iRs)
    show ?thesis
      unfolding lqr_synthesis_def invR(1) bind_res_Inr ok
      apply (rule bind_res_fail[OF mat_mul_total])
      apply (rule bind_res_fail[OF mat_sub_total])
      apply (rule bind_res_fail[OF mat_mul_total])
      apply (rule bind_res_fail[OF mat_mul_total])
      apply (simp add: bad)
      done
  qed
qed

section \<open>The Lyapunov solver\<close>

text \<open>
  Claim C1, as amended. Let \<open>A\<close> be a square matrix of size \<open>m > 0\<close> whose real Schur form
  \<open>T\<close> is upper triangular (diagonal blocks of size one only) and has no two diagonal
  entries, equal or not, that sum to zero, and let \<open>Q\<close> be a matrix of the same size. Then
  \<open>lyapunov(A, Q)\<close> returns a matrix \<open>X\<close> of that size with \<open>A * X + X * A.transpose() = Q\<close>,
  exactly. The library is taken to return a Schur decomposition of \<open>A\<close> and to solve upper
  triangular systems exactly.
\<close>

theorem lyapunov_solves:
  assumes "real_schur L A = (T, U)" and "is_real_schur m A T U"
    and "upper_triangular T" and "no_zero_sum T"
    and "lu_exact_triangular L"
    and "is_mat m m Q" and "0 < m"
  shows "\<exists>X. lyapunov L A Q = Inr X \<and> is_mat m m X \<and>
             madd (mmul A X) (mmul X (mat_transpose A)) = Q"
proof -
  obtain X where X: "lyapunov L A Q = Inr X" "is_mat m m X"
      "mat_add (mmul A X) (mmul X (mat_transpose A)) = Inr Q"
    using lyapunov_solves_AX_XAt[OF assms] by blast
  have "nrows A = m" "ncols A = m"
    using assms(2) by (auto simp: is_real_schur_def dest: is_mat_nrows is_mat_ncols)
  then have "madd (mmul A X) (mmul X (mat_transpose A)) = Q"
    using X(2,3) by (simp add: is_mat_nrows is_mat_ncols)
  then show ?thesis
    using X(1,2) by blast
qed

text \<open>
  The theorem at a matrix of size two: the hypotheses hold there, and so does the equation.
\<close>

theorem lyapunov_solves_witness:
  "is_real_schur 2 (mat_of_rows [[- 1, 1], [0, - 2]]) (mat_of_rows [[- 1, 1], [0, - 2]])
     (mat_identity 2 2) \<and>
   upper_triangular (mat_of_rows [[- 1, 1], [0, - 2]]) \<and>
   no_zero_sum (mat_of_rows [[- 1, 1], [0, - 2]]) \<and>
   lu_exact_triangular (ref_lib (\<lambda>p. [])) \<and>
   is_mat 2 2 (mat_of_rows [[2, 1], [1, 4]]) \<and>
   (\<exists>X. lyapunov (ref_lib (\<lambda>p. [])) (mat_of_rows [[- 1, 1], [0, - 2]])
          (mat_of_rows [[2, 1], [1, 4]]) = Inr X \<and>
        is_mat 2 2 X \<and>
        madd (mmul (mat_of_rows [[- 1, 1], [0, - 2]]) X)
             (mmul X (mat_transpose (mat_of_rows [[- 1, 1], [0, - 2]])))
          = mat_of_rows [[2, 1], [1, 4]])"
proof -
  let ?A = "mat_of_rows [[- 1, 1], [0, - 2]]"
  let ?Q = "mat_of_rows [[2, 1], [1, 4]]"
  have A: "is_mat 2 2 ?A" and Q: "is_mat 2 2 ?Q"
    by (simp_all add: is_mat_rows)
  have h1: "real_schur (ref_lib (\<lambda>p. [])) ?A = (?A, mat_identity 2 2)"
    by (simp add: numeral_2_eq_2)
  have h2: "is_real_schur 2 ?A ?A (mat_identity 2 2)"
    by (rule is_real_schur_triangular[OF A])
  have h3: "upper_triangular ?A"
    by (simp add: upper_triangular_def less_Suc_eq numeral_2_eq_2)
  have h4: "no_zero_sum ?A"
    by (auto simp add: no_zero_sum_def less_Suc_eq numeral_2_eq_2)
  have h5: "lu_exact_triangular (ref_lib (\<lambda>p. []))"
    by (rule lu_exact_triangular_ref_lib)
  show ?thesis
    using lyapunov_solves[OF h1 h2 h3 h4 h5 Q] h2 h3 h4 h5 Q by simp
qed

text \<open>
  Claim C1 as the specification states it, \<open>X * A + A.transpose() * X + Q = 0\<close>, fails at
  \<open>A = (1)\<close> and \<open>Q = (2)\<close>: the Schur form of \<open>A\<close> is \<open>T = (1)\<close> with \<open>U = (1)\<close>, the one
  column of \<open>X\<close> solves \<open>(1 + 1) * x = 2\<close>, hence \<open>X = (1)\<close>, and
  \<open>X * A + A.transpose() * X + Q = (4)\<close>.
\<close>

theorem lyapunov_spec_equation_counterexample:
  "is_real_schur 1 (mat_of_rows [[1]]) (mat_of_rows [[1]]) (mat_identity 1 1) \<and>
   upper_triangular (mat_of_rows [[1]]) \<and>
   no_zero_sum (mat_of_rows [[1]]) \<and>
   lu_exact_triangular (ref_lib (\<lambda>p. [])) \<and>
   mat_transpose (mat_of_rows [[2]]) = mat_of_rows [[2]] \<and>
   lyapunov (ref_lib (\<lambda>p. [])) (mat_of_rows [[1]]) (mat_of_rows [[2]]) = Inr (mat_of_rows [[1]]) \<and>
   madd (madd (mmul (mat_of_rows [[1]]) (mat_of_rows [[1]]))
              (mmul (mat_transpose (mat_of_rows [[1]])) (mat_of_rows [[1]])))
        (mat_of_rows [[2]]) = mat_of_rows [[4]] \<and>
   mat_of_rows [[4]] \<noteq> mat_zero 1 1"
proof -
  have A: "is_mat 1 1 (mat_of_rows [[1]])"
    by (simp add: is_mat_rows)
  have h2: "is_real_schur 1 (mat_of_rows [[1]]) (mat_of_rows [[1]]) (mat_identity 1 1)"
    by (rule is_real_schur_triangular[OF A])
  have h3: "upper_triangular (mat_of_rows [[1]])"
    by (simp add: upper_triangular_def)
  have h4: "no_zero_sum (mat_of_rows [[1]])"
    by (simp add: no_zero_sum_def)
  have h5: "lu_exact_triangular (ref_lib (\<lambda>p. []))"
    by (rule lu_exact_triangular_ref_lib)
  have h6: "mat_transpose (mat_of_rows [[2]]) = mat_of_rows [[2]]"
    by code_simp
  have h7: "lyapunov (ref_lib (\<lambda>p. [])) (mat_of_rows [[1]]) (mat_of_rows [[2]]) = Inr (mat_of_rows [[1]])"
    by code_simp
  have h8: "madd (madd (mmul (mat_of_rows [[1]]) (mat_of_rows [[1]]))
              (mmul (mat_transpose (mat_of_rows [[1]])) (mat_of_rows [[1]])))
        (mat_of_rows [[2]]) = mat_of_rows [[4]]"
    by code_simp
  have h9: "mat_of_rows [[4]] \<noteq> mat_zero 1 1"
    by code_simp
  show ?thesis
    using h2 h3 h4 h5 h6 h7 h8 h9 by blast
qed

text \<open>
  Claim C9. For a square matrix \<open>A\<close> of size \<open>m > 0\<close> whose real Schur form is upper
  triangular with no two diagonal entries, equal or not, summing to zero, and a symmetric
  matrix \<open>Q\<close> of the same size, the matrix returned by \<open>lyapunov(A, Q)\<close> is symmetric.
\<close>

theorem lyapunov_symmetric:
  assumes "real_schur L A = (T, U)" and "is_real_schur m A T U"
    and "upper_triangular T" and "no_zero_sum T"
    and "lu_exact_triangular L"
    and "is_mat m m Q" and "mat_transpose Q = Q" and "0 < m"
  shows "\<exists>X. lyapunov L A Q = Inr X \<and> mat_transpose X = X"
  by (rule lyapunov_result_symmetric[OF assms])

text \<open>The theorem at a matrix of size two, with the matrix that is returned there.\<close>

theorem lyapunov_symmetric_witness:
  "is_real_schur 2 (mat_of_rows [[- 1, 1], [0, - 2]]) (mat_of_rows [[- 1, 1], [0, - 2]])
     (mat_identity 2 2) \<and>
   upper_triangular (mat_of_rows [[- 1, 1], [0, - 2]]) \<and>
   no_zero_sum (mat_of_rows [[- 1, 1], [0, - 2]]) \<and>
   lu_exact_triangular (ref_lib (\<lambda>p. [])) \<and>
   is_mat 2 2 (mat_of_rows [[2, 1], [1, 4]]) \<and>
   mat_transpose (mat_of_rows [[2, 1], [1, 4]]) = mat_of_rows [[2, 1], [1, 4]] \<and>
   lyapunov (ref_lib (\<lambda>p. [])) (mat_of_rows [[- 1, 1], [0, - 2]]) (mat_of_rows [[2, 1], [1, 4]])
     = Inr (mat_of_rows [[- 5 / 3, - 2 / 3], [- 2 / 3, - 1]]) \<and>
   (\<exists>X. lyapunov (ref_lib (\<lambda>p. [])) (mat_of_rows [[- 1, 1], [0, - 2]])
          (mat_of_rows [[2, 1], [1, 4]]) = Inr X \<and> mat_transpose X = X)"
proof -
  let ?A = "mat_of_rows [[- 1, 1], [0, - 2]]"
  let ?Q = "mat_of_rows [[2, 1], [1, 4]]"
  have A: "is_mat 2 2 ?A" and Q: "is_mat 2 2 ?Q"
    by (simp_all add: is_mat_rows)
  have h1: "real_schur (ref_lib (\<lambda>p. [])) ?A = (?A, mat_identity 2 2)"
    by (simp add: numeral_2_eq_2)
  have h2: "is_real_schur 2 ?A ?A (mat_identity 2 2)"
    by (rule is_real_schur_triangular[OF A])
  have h3: "upper_triangular ?A"
    by (simp add: upper_triangular_def less_Suc_eq numeral_2_eq_2)
  have h4: "no_zero_sum ?A"
    by (auto simp add: no_zero_sum_def less_Suc_eq numeral_2_eq_2)
  have h5: "lu_exact_triangular (ref_lib (\<lambda>p. []))"
    by (rule lu_exact_triangular_ref_lib)
  have h6: "mat_transpose ?Q = ?Q"
    by code_simp
  have h7: "lyapunov (ref_lib (\<lambda>p. [])) ?A ?Q = Inr (mat_of_rows [[- 5 / 3, - 2 / 3], [- 2 / 3, - 1]])"
    by code_simp
  show ?thesis
    using lyapunov_symmetric[OF h1 h2 h3 h4 h5 Q h6] h2 h3 h4 h5 Q h6 h7 by simp
qed

section \<open>The Newton direction\<close>

text \<open>
  Claim C2, as amended. In an iteration of \<open>newton_ls_care\<close> whose iterate is \<open>X\<close> and
  whose residual is \<open>RX = C + X * A + A.transpose() * X - (X * B) * X\<close>, the direction
  \<open>H = lyapunov((A - B * X).transpose(), -RX)\<close> satisfies
  \<open>(A - B * X).transpose() * H + H * (A - B * X) + RX = 0\<close>, where the matrices are square of
  one size \<open>m > 0\<close> and the real Schur form of \<open>(A - B * X).transpose()\<close> is upper triangular with
  no two diagonal entries, equal or not, summing to zero.
\<close>

theorem newton_direction_solves:
  assumes "is_mat m m A" and "is_mat m m B" and "is_mat m m C" and "is_mat m m X" and "0 < m"
    and "care_residual A B C X = Inr RX"
    and "real_schur L (mat_transpose (msub A (mmul B X))) = (T, U)"
    and "is_real_schur m (mat_transpose (msub A (mmul B X))) T U"
    and "upper_triangular T" and "no_zero_sum T"
    and "lu_exact_triangular L"
  shows "\<exists>H. newton_direction L A B X RX = Inr H \<and> is_mat m m H \<and>
    madd (madd (mmul (mat_transpose (msub A (mmul B X))) H) (mmul H (msub A (mmul B X)))) RX
      = mat_zero m m"
proof -
  have "RX = msub (madd (madd C (mmul X A)) (mmul (mat_transpose A) X)) (mmul (mmul X B) X)"
    using assms(6) care_residual_Inr[OF assms(1-4)] by simp
  then have "is_mat m m RX"
    using is_mat_msub[of "madd (madd C (mmul X A)) (mmul (mat_transpose A) X)" "mmul (mmul X B) X"]
      assms(3) by (simp add: is_mat_nrows is_mat_ncols)
  then show ?thesis
    by (rule newton_direction_equation[OF assms(1,2,4) _ assms(5) assms(7-11)])
qed

text \<open>The theorem at matrices of size two, with the direction that is returned there.\<close>

theorem newton_direction_solves_witness:
  "care_residual (mat_of_rows [[- 1, 0], [1, - 2]]) (mat_identity 2 2) (mat_of_rows [[2, 1], [1, 4]])
     (mat_zero 2 2) = Inr (mat_of_rows [[2, 1], [1, 4]]) \<and>
   mat_transpose (msub (mat_of_rows [[- 1, 0], [1, - 2]]) (mmul (mat_identity 2 2) (mat_zero 2 2)))
     = mat_of_rows [[- 1, 1], [0, - 2]] \<and>
   upper_triangular (mat_of_rows [[- 1, 1], [0, - 2]]) \<and>
   no_zero_sum (mat_of_rows [[- 1, 1], [0, - 2]]) \<and>
   lu_exact_triangular (ref_lib (\<lambda>p. [])) \<and>
   newton_direction (ref_lib (\<lambda>p. [])) (mat_of_rows [[- 1, 0], [1, - 2]]) (mat_identity 2 2)
     (mat_zero 2 2) (mat_of_rows [[2, 1], [1, 4]])
     = Inr (mat_of_rows [[5 / 3, 2 / 3], [2 / 3, 1]]) \<and>
   (\<exists>H. newton_direction (ref_lib (\<lambda>p. [])) (mat_of_rows [[- 1, 0], [1, - 2]]) (mat_identity 2 2)
          (mat_zero 2 2) (mat_of_rows [[2, 1], [1, 4]]) = Inr H \<and>
        is_mat 2 2 H \<and>
        madd (madd (mmul (mat_transpose (msub (mat_of_rows [[- 1, 0], [1, - 2]])
                                              (mmul (mat_identity 2 2) (mat_zero 2 2)))) H)
                   (mmul H (msub (mat_of_rows [[- 1, 0], [1, - 2]])
                                 (mmul (mat_identity 2 2) (mat_zero 2 2)))))
             (mat_of_rows [[2, 1], [1, 4]]) = mat_zero 2 2)"
proof -
  let ?A = "mat_of_rows [[- 1, 0], [1, - 2]]"
  let ?C = "mat_of_rows [[2, 1], [1, 4]]"
  let ?T = "mat_of_rows [[- 1, 1], [0, - 2]]"
  let ?AB = "msub ?A (mmul (mat_identity 2 2) (mat_zero 2 2))"
  have A: "is_mat 2 2 ?A" and C: "is_mat 2 2 ?C" and T: "is_mat 2 2 ?T"
    by (simp_all add: is_mat_rows)
  have h6: "care_residual ?A (mat_identity 2 2) ?C (mat_zero 2 2) = Inr ?C"
    by code_simp
  have t: "mat_transpose ?AB = ?T"
    by code_simp
  have h7: "real_schur (ref_lib (\<lambda>p. [])) (mat_transpose ?AB) = (?T, mat_identity 2 2)"
    unfolding t by (simp add: numeral_2_eq_2)
  have h8: "is_real_schur 2 (mat_transpose ?AB) ?T (mat_identity 2 2)"
    unfolding t by (rule is_real_schur_triangular[OF T])
  have h9: "upper_triangular ?T"
    by (simp add: upper_triangular_def less_Suc_eq numeral_2_eq_2)
  have h10: "no_zero_sum ?T"
    by (auto simp add: no_zero_sum_def less_Suc_eq numeral_2_eq_2)
  have h11: "lu_exact_triangular (ref_lib (\<lambda>p. []))"
    by (rule lu_exact_triangular_ref_lib)
  have v: "newton_direction (ref_lib (\<lambda>p. [])) ?A (mat_identity 2 2) (mat_zero 2 2) ?C
      = Inr (mat_of_rows [[5 / 3, 2 / 3], [2 / 3, 1]])"
    by code_simp
  show ?thesis
    using newton_direction_solves[OF A is_mat_identity C is_mat_zero _ h6 h7 h8 h9 h10 h11]
      h6 t h9 h10 h11 v
    by simp
qed

text \<open>
  Claim C2 as the specification states it, with \<open>- RX\<close> in place of \<open>+ RX\<close>, fails at
  \<open>A = (-1)\<close>, \<open>B = (0)\<close>, \<open>C = (2)\<close> and \<open>X = (0)\<close>: there \<open>RX = (2)\<close>,
  \<open>A - B * X = (-1)\<close>, the direction solves \<open>(-1 - 1) * h = -2\<close>, hence \<open>H = (1)\<close>, and
  \<open>(A - B * X).transpose() * H + H * (A - B * X) - RX = (-4)\<close>.
\<close>

theorem newton_direction_sign_counterexample:
  "care_residual (mat_of_rows [[- 1]]) (mat_of_rows [[0]]) (mat_of_rows [[2]]) (mat_of_rows [[0]])
     = Inr (mat_of_rows [[2]]) \<and>
   newton_direction (ref_lib (\<lambda>p. [])) (mat_of_rows [[- 1]]) (mat_of_rows [[0]]) (mat_of_rows [[0]])
     (mat_of_rows [[2]]) = Inr (mat_of_rows [[1]]) \<and>
   msub (mat_of_rows [[- 1]]) (mmul (mat_of_rows [[0]]) (mat_of_rows [[0]])) = mat_of_rows [[- 1]] \<and>
   msub (madd (mmul (mat_transpose (mat_of_rows [[- 1]])) (mat_of_rows [[1]]))
              (mmul (mat_of_rows [[1]]) (mat_of_rows [[- 1]])))
        (mat_of_rows [[2]]) = mat_of_rows [[- 4]] \<and>
   mat_of_rows [[- 4]] \<noteq> mat_zero 1 1"
proof -
  have h1: "care_residual (mat_of_rows [[- 1]]) (mat_of_rows [[0]]) (mat_of_rows [[2]])
      (mat_of_rows [[0]]) = Inr (mat_of_rows [[2]])"
    by code_simp
  have h2: "newton_direction (ref_lib (\<lambda>p. [])) (mat_of_rows [[- 1]]) (mat_of_rows [[0]])
      (mat_of_rows [[0]]) (mat_of_rows [[2]]) = Inr (mat_of_rows [[1]])"
    by code_simp
  have h3: "msub (mat_of_rows [[- 1]]) (mmul (mat_of_rows [[0]]) (mat_of_rows [[0]]))
      = mat_of_rows [[- 1]]"
    by code_simp
  have h4: "msub (madd (mmul (mat_transpose (mat_of_rows [[- 1]])) (mat_of_rows [[1]]))
              (mmul (mat_of_rows [[1]]) (mat_of_rows [[- 1]])))
        (mat_of_rows [[2]]) = mat_of_rows [[- 4]]"
    by code_simp
  have h5: "mat_of_rows [[- 4]] \<noteq> mat_zero 1 1"
    by code_simp
  show ?thesis
    using h1 h2 h3 h4 h5 by blast
qed

section \<open>The pseudo-inverse on matrices that are not square\<close>

text \<open>
  Claim C4 says that \<open>pinv\<close> is defined for a matrix of every shape. It is defined for
  square matrices (lemma \<open>pinv_square_ok\<close>); for a matrix with fewer rows than columns the
  loop reads the vector of singular values past its end (lemma \<open>pinv_wide_fails\<close>), and
  for a matrix with more rows than columns the shapes of the last product do not fit
  (lemma \<open>pinv_tall_fails\<close>). The two failures at the matrices \<open>(1 0)\<close>, which has one
  row, and its transpose, which has one column:
\<close>

theorem pinv_non_square_fails:
  "pinv (ref_lib (\<lambda>p. [])) (mat_of_rows [[1, 0]]) = Inl IndexOutOfRange \<and>
   pinv (ref_lib (\<lambda>p. [])) (mat_of_rows [[1], [0]]) = Inl DimMismatch"
proof -
  have "pinv (ref_lib (\<lambda>p. [])) (mat_of_rows [[1, 0]]) = Inl IndexOutOfRange"
    by (rule pinv_wide_fails[OF svd_shapes_ref_lib]) simp
  moreover have "pinv (ref_lib (\<lambda>p. [])) (mat_of_rows [[1], [0]]) = Inl DimMismatch"
    by (rule pinv_tall_fails[OF svd_shapes_ref_lib]) simp
  ultimately show ?thesis by blast
qed

section \<open>The line search\<close>



section \<open>The Newton iteration\<close>

text \<open>
  Claim C7. Whenever \<open>newton_ls_care\<close> returns a matrix \<open>X\<close>, the value \<open>err\<close> of the last
  test of the loop is the Frobenius norm of the residual \<open>RX\<close> of an iterate \<open>Xp\<close>, and
  \<open>X\<close> is not \<open>Xp\<close> but its update \<open>Xp + tk * H\<close>: the test is one step stale. The loop is left
  with \<open>err \<le> tol\<close> or \<open>k = kmax\<close>. The same holds in every iteration: each line
  \<open>err ... step ...\<close> that is printed shows the norm of the residual of the iterate that the
  iteration started from.
\<close>

theorem newton_err_is_stale:
  assumes "newton_ls_care L A B C X0 = Inr (X, msgs)"
  shows "(\<exists>Xp RX H tk err k pre.
            care_residual A B C Xp = Inr RX \<and> newton_direction L A B Xp RX = Inr H \<and>
            X = madd Xp (mat_scale tk H) \<and> err = mat_norm RX \<and> (err \<le> tol \<or> k = kmax) \<and>
            msgs = pre @ [Err_step err tk, Care_took k] @
                     (if k = kmax then [Care_not_solved err] else [])) \<and>
         (\<forall>e t. Err_step e t \<in> set msgs \<longrightarrow>
            (\<exists>Xq RX H. care_residual A B C Xq = Inr RX \<and> newton_direction L A B Xq RX = Inr H \<and>
               e = mat_norm RX \<and> newton_body L A B C Xq = Inr (madd Xq (mat_scale t H), e, t)))"
proof -
  obtain eig err k out where lp: "newton_loop L A B C X0 dbl_max 0 [Init_X0 eig] = Inr (X, err, k, out)"
      and msgs: "msgs = out @ [Care_took k] @ (if k = kmax then [Care_not_solved err] else [])"
    using newton_ls_care_Inr[OF assms] by blast
  note inv = newton_loop_invariant[OF lp]
  have exit: "err \<le> tol \<or> \<not> k < kmax" and kle: "k \<le> kmax"
    using inv by simp_all
  have "\<not> (k = 0 \<and> err = dbl_max)"
    using exit tol_less_dbl_max by (auto simp: kmax_def)
  then obtain Xp tk pre where b: "newton_body L A B C Xp = Inr (X, err, tk)"
      "out = pre @ [Err_step err tk]"
    using inv by auto
  obtain RX H where rh: "care_residual A B C Xp = Inr RX" "newton_direction L A B Xp RX = Inr H"
      "err = mat_norm RX" "X = madd Xp (mat_scale tk H)"
    using newton_body_Inr[OF b(1)] by blast
  have fin: "err \<le> tol \<or> k = kmax"
    using exit kle by auto
  have m2: "msgs = pre @ [Err_step err tk, Care_took k] @
      (if k = kmax then [Care_not_solved err] else [])"
    by (simp add: msgs b(2))
  have every: "\<exists>Xq RX H. care_residual A B C Xq = Inr RX \<and> newton_direction L A B Xq RX = Inr H \<and>
      e = mat_norm RX \<and> newton_body L A B C Xq = Inr (madd Xq (mat_scale t H), e, t)"
    if "Err_step e t \<in> set msgs" for e t
  proof -
    have "Err_step e t \<in> set out"
      using that by (auto simp: msgs split: if_splits)
    moreover have "\<forall>e t. Err_step e t \<in> set out \<longrightarrow>
        Err_step e t \<in> set [Init_X0 eig] \<or> (\<exists>Xq Xn. newton_body L A B C Xq = Inr (Xn, e, t))"
      using inv by blast
    ultimately have "\<exists>Xq Xn. newton_body L A B C Xq = Inr (Xn, e, t)"
      by simp
    then obtain Xq Xn where q: "newton_body L A B C Xq = Inr (Xn, e, t)"
      by blast
    then show ?thesis
      using newton_body_Inr[OF q] by auto
  qed
  show ?thesis
    using rh fin m2 every by blast
qed

text \<open>
  The theorem at \<open>A = (-1)\<close>, \<open>B = (1)\<close>, \<open>C = (0.000002000001)\<close>, \<open>X0 = (0)\<close>, with
  the three roots of the cubic of this run for the root finder. The loop is left after one
  iteration with \<open>err = 0.000002000001\<close>, the norm of the residual of \<open>X0\<close>; the matrix
  returned is \<open>(0.000001)\<close>, whose residual is zero.
\<close>

theorem newton_err_is_stale_witness:
  "newton_ls_care
     (ref_lib (\<lambda>p. map complex_of_real [2000000 / 2000001, - 2000000000000 / 2000001, - 2000000]))
     (mat_of_rows [[- 1]]) (mat_of_rows [[1]]) (mat_of_rows [[2000001 / 1000000000000]])
     (mat_of_rows [[0]])
   = Inr (mat_of_rows [[1 / 1000000]],
          [Init_X0 [- 1], Err_step (2000001 / 1000000000000) (2000000 / 2000001), Care_took 1]) \<and>
   care_residual (mat_of_rows [[- 1]]) (mat_of_rows [[1]]) (mat_of_rows [[2000001 / 1000000000000]])
     (mat_of_rows [[0]]) = Inr (mat_of_rows [[2000001 / 1000000000000]]) \<and>
   mat_norm (mat_of_rows [[2000001 / 1000000000000]]) = 2000001 / 1000000000000 \<and>
   care_residual (mat_of_rows [[- 1]]) (mat_of_rows [[1]]) (mat_of_rows [[2000001 / 1000000000000]])
     (mat_of_rows [[1 / 1000000]]) = Inr (mat_of_rows [[0]]) \<and>
   mat_norm (mat_of_rows [[0]]) = 0 \<and>
   (\<exists>Xp RX H tk err k pre.
      care_residual (mat_of_rows [[- 1]]) (mat_of_rows [[1]])
        (mat_of_rows [[2000001 / 1000000000000]]) Xp = Inr RX \<and>
      newton_direction
        (ref_lib (\<lambda>p. map complex_of_real [2000000 / 2000001, - 2000000000000 / 2000001, - 2000000]))
        (mat_of_rows [[- 1]]) (mat_of_rows [[1]]) Xp RX = Inr H \<and>
      mat_of_rows [[1 / 1000000]] = madd Xp (mat_scale tk H) \<and> err = mat_norm RX \<and>
      (err \<le> tol \<or> k = kmax) \<and>
      [Init_X0 [- 1], Err_step (2000001 / 1000000000000) (2000000 / 2000001), Care_took 1]
        = pre @ [Err_step err tk, Care_took k] @ (if k = kmax then [Care_not_solved err] else []))"
proof -
  let ?L = "ref_lib (\<lambda>p. map complex_of_real [2000000 / 2000001, - 2000000000000 / 2000001, - 2000000])"
  let ?A = "mat_of_rows [[- 1]]" and ?B = "mat_of_rows [[1]]"
  let ?C = "mat_of_rows [[2000001 / 1000000000000]]" and ?X = "mat_of_rows [[0]]"
  have e1: "mat_mul ?B ?X = Inr (mat_of_rows [[0]])"
    by code_simp
  have e2: "mat_sub ?A (mat_of_rows [[0]]) = Inr (mat_of_rows [[- 1]])"
    by code_simp
  have e3: "eigenvalues_of ?L (mat_of_rows [[- 1]]) = Inr [- 1]"
    by (simp add: eigenvalues_of_def ref_lib_def)
  have run: "newton_ls_care ?L ?A ?B ?C ?X = Inr (mat_of_rows [[1 / 1000000]],
      [Init_X0 [- 1], Err_step (2000001 / 1000000000000) (2000000 / 2000001), Care_took 1])"
    by (rule newton_ls_care_one_step[OF e1 e2 e3 eps_body]) (simp add: tol_def)
  have r0: "care_residual ?A ?B ?C ?X = Inr ?C"
    by code_simp
  have n0: "mat_norm ?C = 2000001 / 1000000000000"
    by (simp add: mat_norm_1x1)
  have r1: "care_residual ?A ?B ?C (mat_of_rows [[1 / 1000000]]) = Inr (mat_of_rows [[0]])"
    by code_simp
  have n1: "mat_norm (mat_of_rows [[0]]) = 0"
    by (simp add: mat_norm_1x1)
  show ?thesis
    using newton_err_is_stale[OF run] run r0 n0 r1 n1 by blast
qed

text \<open>
  Claim C8. For square matrices \<open>A\<close>, \<open>B\<close>, \<open>C\<close>, \<open>X0\<close> of one size \<open>m > 0\<close>,
  \<open>newton_ls_care\<close> returns a matrix of that size after \<open>k\<close> iterations, \<open>1 \<le> k \<le> 20\<close>.
  It prints the line of the initial guess, then one line \<open>err e step t\<close> for each iteration,
  then the number \<open>k\<close> of iterations. The loop is left at the first iteration whose \<open>err\<close> is
  at most \<open>1e-5\<close>, or after the twentieth: every line but the last has \<open>e > 1e-5\<close>, and the
  \<open>err\<close> of the last line is at most \<open>1e-5\<close> unless \<open>k = 20\<close>. When \<open>k = 20\<close> the warning is
  printed, with that \<open>err\<close>, and the iterate is returned all the same. No assertion of the
  library fails on the way; the library is taken to return factors and solutions of the
  shapes it documents.
\<close>

theorem newton_ls_care_terminates:
  assumes "lib_shapes L" and "0 < m"
    and "is_mat m m A" and "is_mat m m B" and "is_mat m m C" and "is_mat m m X0"
  shows "\<exists>X k err tk steps.
           newton_ls_care L A B C X0 =
             Inr (X, [Init_X0 (eigenvalues L (msub A (mmul B X0)))] @ steps @
                     [Err_step err tk, Care_took k] @
                     (if k = 20 then [Care_not_solved err] else [])) \<and>
           is_mat m m X \<and> k = length steps + 1 \<and> k \<le> 20 \<and>
           (\<forall>d\<in>set steps. \<exists>e t. d = Err_step e t \<and> 1 / 100000 < e) \<and>
           (err \<le> 1 / 100000 \<or> k = 20)"
proof -
  have sh: "nrows A = m" "ncols A = m" "nrows B = m" "ncols B = m" "nrows C = m" "ncols C = m"
    and X0: "nrows X0 = m" "ncols X0 = m"
    using assms(3-6) by (simp_all add: is_mat_nrows is_mat_ncols)
  define eig where "eig = eigenvalues L (msub A (mmul B X0))"
  have k0: "(0::nat) \<le> kmax" by simp
  obtain X err k all where lp:
      "newton_loop L A B C X0 dbl_max 0 [Init_X0 eig] = Inr (X, err, k, [Init_X0 eig] @ all)"
      "is_mat m m X" "k \<le> kmax" "k = 0 + length all" "err \<le> tol \<or> k = kmax"
      "all = [] \<longrightarrow> err = dbl_max \<and> X = X0"
      "all \<noteq> [] \<longrightarrow> tol < dbl_max \<and> (\<exists>t. last all = Err_step err t) \<and>
         (\<forall>d\<in>set (butlast all). \<exists>e t. d = Err_step e t \<and> tol < e)"
    using newton_loop_trace[OF assms(1) sh assms(2) assms(6) k0, of dbl_max "[Init_X0 eig]"]
    by blast
  have ne: "all \<noteq> []"
  proof
    assume a: "all = []"
    then have "err = dbl_max" "k = 0"
      using lp(4,6) by simp_all
    then show False
      using lp(5) tol_less_dbl_max by (simp add: kmax_def)
  qed
  then obtain tk where tk: "last all = Err_step err tk"
    and pre: "\<forall>d\<in>set (butlast all). \<exists>e t. d = Err_step e t \<and> tol < e"
    using lp(7) by blast
  define steps where "steps = butlast all"
  have all: "all = steps @ [Err_step err tk]"
    using ne tk unfolding steps_def by (metis append_butlast_last_id)
  have run: "newton_ls_care L A B C X0 =
      Inr (X, ([Init_X0 eig] @ all) @ [Care_took k] @ (if k = kmax then [Care_not_solved err] else []))"
    by (simp add: newton_ls_care_def sh X0 eigenvalues_of_def eig_def[symmetric] lp(1))
  have "newton_ls_care L A B C X0 =
      Inr (X, [Init_X0 eig] @ steps @ [Err_step err tk, Care_took k] @
              (if k = 20 then [Care_not_solved err] else []))"
    unfolding run all by (simp add: kmax_def)
  moreover have "k = length steps + 1"
    using lp(4) by (simp add: all)
  moreover have "\<forall>d\<in>set steps. \<exists>e t. d = Err_step e t \<and> 1 / 100000 < e"
    using pre by (simp add: steps_def tol_def)
  ultimately show ?thesis
    using lp(2,3,5) unfolding kmax_def tol_def eig_def by blast
qed

text \<open>
  The theorem at two runs. At \<open>A = (-1)\<close>, \<open>B = (0)\<close>, \<open>C = (2)\<close>, \<open>X0 = (0)\<close> the
  iterates alternate between \<open>(0)\<close> and \<open>(2)\<close> with \<open>err = 2\<close>: the run takes the twenty
  iterations, prints the warning and returns \<open>(0)\<close>. At \<open>A = (-1)\<close>, \<open>B = (1)\<close>,
  \<open>C = (0.000002000001)\<close>, \<open>X0 = (0)\<close> the loop is left after one iteration, whose \<open>err\<close>
  is below \<open>1e-5\<close>.
\<close>

theorem newton_ls_care_terminates_witness:
  "lib_shapes (ref_lib (\<lambda>p. [])) \<and>
   is_mat 1 1 (mat_of_rows [[- 1]]) \<and> is_mat 1 1 (mat_of_rows [[0]]) \<and>
   is_mat 1 1 (mat_of_rows [[2]]) \<and>
   newton_ls_care (ref_lib (\<lambda>p. [])) (mat_of_rows [[- 1]]) (mat_of_rows [[0]]) (mat_of_rows [[2]])
     (mat_of_rows [[0]]) =
   Inr (mat_of_rows [[0]],
        Init_X0 [- 1] # replicate 20 (Err_step 2 2) @ [Care_took 20, Care_not_solved 2]) \<and>
   (\<exists>X k err tk steps.
      newton_ls_care (ref_lib (\<lambda>p. [])) (mat_of_rows [[- 1]]) (mat_of_rows [[0]])
        (mat_of_rows [[2]]) (mat_of_rows [[0]]) =
        Inr (X, [Init_X0 (eigenvalues (ref_lib (\<lambda>p. []))
                   (msub (mat_of_rows [[- 1]]) (mmul (mat_of_rows [[0]]) (mat_of_rows [[0]]))))] @
                steps @ [Err_step err tk, Care_took k] @
                (if k = 20 then [Care_not_solved err] else [])) \<and>
      is_mat 1 1 X \<and> k = length steps + 1 \<and> k \<le> 20 \<and>
      (\<forall>d\<in>set steps. \<exists>e t. d = Err_step e t \<and> 1 / 100000 < e) \<and>
      (err \<le> 1 / 100000 \<or> k = 20)) \<and>
   lib_shapes (ref_lib (\<lambda>p. map complex_of_real
     [2000000 / 2000001, - 2000000000000 / 2000001, - 2000000])) \<and>
   is_mat 1 1 (mat_of_rows [[1]]) \<and> is_mat 1 1 (mat_of_rows [[2000001 / 1000000000000]]) \<and>
   newton_ls_care
     (ref_lib (\<lambda>p. map complex_of_real [2000000 / 2000001, - 2000000000000 / 2000001, - 2000000]))
     (mat_of_rows [[- 1]]) (mat_of_rows [[1]]) (mat_of_rows [[2000001 / 1000000000000]])
     (mat_of_rows [[0]])
   = Inr (mat_of_rows [[1 / 1000000]],
          [Init_X0 [- 1], Err_step (2000001 / 1000000000000) (2000000 / 2000001), Care_took 1]) \<and>
   (\<exists>X k err tk steps.
      newton_ls_care
        (ref_lib (\<lambda>p. map complex_of_real [2000000 / 2000001, - 2000000000000 / 2000001, - 2000000]))
        (mat_of_rows [[- 1]]) (mat_of_rows [[1]]) (mat_of_rows [[2000001 / 1000000000000]])
        (mat_of_rows [[0]]) =
        Inr (X, [Init_X0 (eigenvalues
                   (ref_lib (\<lambda>p. map complex_of_real
                      [2000000 / 2000001, - 2000000000000 / 2000001, - 2000000]))
                   (msub (mat_of_rows [[- 1]]) (mmul (mat_of_rows [[1]]) (mat_of_rows [[0]]))))] @
                steps @ [Err_step err tk, Care_took k] @
                (if k = 20 then [Care_not_solved err] else [])) \<and>
      is_mat 1 1 X \<and> k = length steps + 1 \<and> k \<le> 20 \<and>
      (\<forall>d\<in>set steps. \<exists>e t. d = Err_step e t \<and> 1 / 100000 < e) \<and>
      (err \<le> 1 / 100000 \<or> k = 20))"
proof -
  let ?L = "ref_lib (\<lambda>p. [])"
  let ?L' = "ref_lib (\<lambda>p. map complex_of_real [2000000 / 2000001, - 2000000000000 / 2000001, - 2000000])"
  let ?A = "mat_of_rows [[- 1]]" and ?Z = "mat_of_rows [[0]]" and ?I = "mat_of_rows [[1]]"
  let ?C = "mat_of_rows [[2000001 / 1000000000000]]"
  have L: "lib_shapes ?L" and L': "lib_shapes ?L'"
    by (rule lib_shapes_ref_lib)+
  have A: "is_mat 1 1 ?A" and Z: "is_mat 1 1 ?Z"
    and C2: "is_mat 1 1 (mat_of_rows [[2]])" and I: "is_mat 1 1 ?I" and C: "is_mat 1 1 ?C"
    by (simp_all add: is_mat_rows)
  have pos: "0 < (1::nat)" by simp
  have e1: "mat_mul ?I ?Z = Inr (mat_of_rows [[0]])"
    by code_simp
  have e2: "mat_sub ?A (mat_of_rows [[0]]) = Inr (mat_of_rows [[- 1]])"
    by code_simp
  have e3: "eigenvalues_of ?L' (mat_of_rows [[- 1]]) = Inr [- 1]"
    by (simp add: eigenvalues_of_def ref_lib_def)
  have run: "newton_ls_care ?L' ?A ?I ?C ?Z = Inr (mat_of_rows [[1 / 1000000]],
      [Init_X0 [- 1], Err_step (2000001 / 1000000000000) (2000000 / 2000001), Care_took 1])"
    by (rule newton_ls_care_one_step[OF e1 e2 e3 eps_body]) (simp add: tol_def)
  note t20 = newton_ls_care_terminates[OF L pos A Z C2 Z]
  note t1 = newton_ls_care_terminates[OF L' pos A I C Z]
  show ?thesis
    by (intro conjI L A Z C2 osc_run t20 L' I C run t1)
qed

text \<open>
  Claim C10, as amended. The first test of the loop always succeeds, since \<open>err\<close> starts at
  the largest double and \<open>kmax\<close> is positive: \<open>newton_ls_care\<close> performs at least one update.
  When \<open>X0\<close> has residual zero, it performs exactly one and returns \<open>X0 + tk * H\<close>, for \<open>H\<close>
  the Lyapunov solve of the zero residual and \<open>tk\<close> the result of the line search for
  \<open>a = b = 0\<close> and \<open>c\<close> the trace of the square of \<open>V = H * B * H\<close>. When \<open>H\<close> is zero, then
  \<open>tk = 2\<close> and the matrix returned equals \<open>X0\<close>.
\<close>

theorem newton_first_update:
  "newton_loop L A B C X0 dbl_max 0 out =
     (case newton_body L A B C X0 of
        Inl e \<Rightarrow> Inl e
      | Inr (X', err', tk) \<Rightarrow> newton_loop L A B C X' err' 1 (out @ [Err_step err' tk])) \<and>
   (is_mat m m A \<and> is_mat m m B \<and> is_mat m m C \<and> is_mat m m X0 \<and>
    care_residual A B C X0 = Inr (mat_zero m m) \<and>
    newton_direction L A B X0 (mat_zero m m) = Inr H \<and> is_mat m m H \<longrightarrow>
      (let V = mmul (mmul H B) H;
           tk = line_search_care L 0 0 (mat_trace (mmul V V))
       in newton_ls_care L A B C X0 =
            Inr (madd X0 (mat_scale tk H),
                 [Init_X0 (eigenvalues L (msub A (mmul B X0))), Err_step 0 tk, Care_took 1]) \<and>
          (H = mat_zero m m \<longrightarrow> tk = 2 \<and> madd X0 (mat_scale tk H) = X0)))"
  by (rule newton_first_update_aux)

text \<open>The theorem at matrices of size two, where \<open>H\<close> is zero and \<open>X0\<close> is returned.\<close>

theorem newton_first_update_witness:
  "is_mat 2 2 (mat_of_rows [[- 1, 0], [1, - 2]]) \<and> is_mat 2 2 (mat_identity 2 2) \<and>
   is_mat 2 2 (mat_zero 2 2) \<and>
   care_residual (mat_of_rows [[- 1, 0], [1, - 2]]) (mat_identity 2 2) (mat_zero 2 2) (mat_zero 2 2)
     = Inr (mat_zero 2 2) \<and>
   newton_direction (ref_lib (\<lambda>p. [])) (mat_of_rows [[- 1, 0], [1, - 2]]) (mat_identity 2 2)
     (mat_zero 2 2) (mat_zero 2 2) = Inr (mat_zero 2 2) \<and>
   newton_loop (ref_lib (\<lambda>p. [])) (mat_of_rows [[- 1, 0], [1, - 2]]) (mat_identity 2 2)
     (mat_zero 2 2) (mat_zero 2 2) dbl_max 0 [] =
     (case newton_body (ref_lib (\<lambda>p. [])) (mat_of_rows [[- 1, 0], [1, - 2]]) (mat_identity 2 2)
             (mat_zero 2 2) (mat_zero 2 2) of
        Inl e \<Rightarrow> Inl e
      | Inr (X', err', tk) \<Rightarrow>
          newton_loop (ref_lib (\<lambda>p. [])) (mat_of_rows [[- 1, 0], [1, - 2]]) (mat_identity 2 2)
            (mat_zero 2 2) X' err' 1 ([] @ [Err_step err' tk])) \<and>
   newton_ls_care (ref_lib (\<lambda>p. [])) (mat_of_rows [[- 1, 0], [1, - 2]]) (mat_identity 2 2)
     (mat_zero 2 2) (mat_zero 2 2) =
     Inr (mat_zero 2 2, [Init_X0 [- 1, - 2], Err_step 0 2, Care_took 1])"
proof -
  let ?L = "ref_lib (\<lambda>p. [])"
  let ?A = "mat_of_rows [[- 1, 0], [1, - 2]]"
  let ?B = "mat_identity 2 2"
  let ?Z = "mat_zero 2 2"
  have A: "is_mat 2 2 ?A"
    by (simp add: is_mat_rows)
  have r: "care_residual ?A ?B ?Z ?Z = Inr ?Z"
    by code_simp
  have h: "newton_direction ?L ?A ?B ?Z ?Z = Inr ?Z"
    by code_simp
  have e: "eigenvalues ?L (msub ?A (mmul ?B ?Z)) = [- 1, - 2]"
    by (simp add: ref_lib_def msub_def mmul_def mk_mat_def coeff_def mat_of_rows_def mat_zero_def
        mat_identity_def numeral_2_eq_2)
  have hyp: "is_mat 2 2 ?A \<and> is_mat 2 2 ?B \<and> is_mat 2 2 ?Z \<and> is_mat 2 2 ?Z \<and>
      care_residual ?A ?B ?Z ?Z = Inr ?Z \<and> newton_direction ?L ?A ?B ?Z ?Z = Inr ?Z \<and>
      is_mat 2 2 ?Z"
    using A r h by simp
  note t = newton_first_update[of ?L ?A ?B ?Z ?Z "[]" 2 ?Z]
  have "newton_ls_care ?L ?A ?B ?Z ?Z = Inr (?Z, [Init_X0 [- 1, - 2], Err_step 0 2, Care_took 1])"
    using t hyp unfolding Let_def e by (metis (no_types, lifting))
  then show ?thesis
    using t A r h by simp
qed

text \<open>
  Claim C10 as the specification states it says that \<open>X0\<close> is not returned unchanged. At
  \<open>A = (-1)\<close>, \<open>B = (1)\<close>, \<open>C = (0)\<close>, \<open>X0 = (0)\<close> the residual of \<open>X0\<close> is zero, the one
  iteration computes \<open>H = (0)\<close> and \<open>tk = 2\<close>, and the matrix returned is \<open>X0 + 2 * (0) = X0\<close>.
\<close>

theorem newton_returns_initial_guess_counterexample:
  "care_residual (mat_of_rows [[- 1]]) (mat_of_rows [[1]]) (mat_of_rows [[0]]) (mat_of_rows [[0]])
     = Inr (mat_of_rows [[0]]) \<and>
   newton_ls_care (ref_lib (\<lambda>p. [])) (mat_of_rows [[- 1]]) (mat_of_rows [[1]]) (mat_of_rows [[0]])
     (mat_of_rows [[0]]) =
     Inr (mat_of_rows [[0]], [Init_X0 [- 1], Err_step 0 2, Care_took 1])"
proof -
  let ?L = "ref_lib (\<lambda>p. [])"
  let ?A = "mat_of_rows [[- 1]]" and ?B = "mat_of_rows [[1]]" and ?Z = "mat_of_rows [[0]]"
  have z: "?Z = mat_zero 1 1"
    by code_simp
  have A: "is_mat 1 1 ?A" and B: "is_mat 1 1 ?B" and Z: "is_mat 1 1 ?Z"
    by (simp_all add: is_mat_rows)
  have r: "care_residual ?A ?B ?Z ?Z = Inr ?Z"
    by code_simp
  have h: "newton_direction ?L ?A ?B ?Z ?Z = Inr ?Z"
    by code_simp
  have e: "eigenvalues ?L (msub ?A (mmul ?B ?Z)) = [- 1]"
    by (simp add: ref_lib_def msub_def mmul_def mk_mat_def coeff_def mat_of_rows_def)
  have hyp: "is_mat 1 1 ?A \<and> is_mat 1 1 ?B \<and> is_mat 1 1 ?Z \<and> is_mat 1 1 ?Z \<and>
      care_residual ?A ?B ?Z ?Z = Inr (mat_zero 1 1) \<and>
      newton_direction ?L ?A ?B ?Z (mat_zero 1 1) = Inr ?Z \<and> is_mat 1 1 ?Z"
    using A B Z r h z by simp
  note t = newton_first_update_aux[of ?L ?A ?B ?Z ?Z "[]" 1 ?Z]
  have "newton_ls_care ?L ?A ?B ?Z ?Z = Inr (?Z, [Init_X0 [- 1], Err_step 0 2, Care_took 1])"
    using t hyp z unfolding Let_def e by (metis (no_types, lifting))
  then show ?thesis
    using r by simp
qed

section \<open>The linear-quadratic regulator\<close>

text \<open>
  Claim C5. Let the positivity check be disabled, or pass (no eigenvalue of
  \<open>Q - M * pinv(R) * M.transpose()\<close> has a negative real part). Then \<open>lqr\<close> returns a
  gain \<open>K\<close> exactly when every step of the synthesis is defined, and the steps are those of
  the specification: \<open>invR = pinv(R)\<close>, \<open>A = F - M * invR * G.transpose()\<close>,
  \<open>B = G * invR * G.transpose()\<close>, \<open>C = M * invR * M + Q\<close> with \<open>M\<close> not transposed,
  \<open>S = care(A, B, C)\<close> and \<open>K = invR * (G.transpose() * S + M.transpose())\<close>. What is
  printed is \<open>A\<close>, \<open>B\<close>, \<open>C\<close>, the lines of \<open>care\<close>, the left-hand side of the Riccati
  equation at \<open>S\<close>, and \<open>S\<close>.
\<close>

theorem lqr_builds_riccati:
  assumes "check \<longrightarrow> lqr_check L Q R M = Inr False"
  shows "lqr L sys Q R M check = Inr (K, out) \<longleftrightarrow>
         (\<exists>invR A B C S cout res.
            pinv L R = Inr invR \<and> riccati_A sys M invR = Inr A \<and> riccati_B sys invR = Inr B \<and>
            riccati_C Q M invR = Inr C \<and> care L A B C = Inr (S, cout) \<and>
            care_equation A B C S = Inr res \<and> lqr_gain sys M invR S = Inr K \<and>
            out = [Show_matrix ''A'' A, Show_matrix ''B'' B, Show_matrix ''C'' C] @ cout @
                    [Show_matrix ''CARE solution'' res, Show_matrix ''S'' S])"
    (is "?lhs \<longleftrightarrow> ?rhs")
proof -
  have skip: "lqr L sys Q R M check = lqr_synthesis L sys Q R M"
    using assms by (cases check) (simp_all add: lqr_def)
  show ?thesis
  proof
    assume ?lhs
    then have "lqr_synthesis L sys Q R M = Inr (K, out)"
      by (simp add: skip)
    then show ?rhs
      by (rule lqr_synthesis_Inr)
  next
    assume ?rhs
    then obtain invR A B C S cout res where
        f: "pinv L R = Inr invR" "riccati_A sys M invR = Inr A" "riccati_B sys invR = Inr B"
        "riccati_C Q M invR = Inr C" "care L A B C = Inr (S, cout)"
        "care_equation A B C S = Inr res" "lqr_gain sys M invR S = Inr K"
        and out: "out = [Show_matrix ''A'' A, Show_matrix ''B'' B, Show_matrix ''C'' C] @ cout @
                    [Show_matrix ''CARE solution'' res, Show_matrix ''S'' S]"
      by auto
    have "lqr_synthesis L sys Q R M = Inr (K, out)"
      unfolding out by (rule lqr_synthesis_eval[OF f])
    then show ?lhs
      by (simp add: skip)
  qed
qed

text \<open>
  The theorem at \<open>F = (-1)\<close>, \<open>G = (0)\<close>, \<open>Q = (-1)\<close>, \<open>R = (1)\<close>, \<open>M = (1)\<close>, the check
  disabled: \<open>invR = (1)\<close>, \<open>A = (-1)\<close>, \<open>B = (0)\<close>, \<open>C = (0)\<close>, \<open>S = (0)\<close> after one
  iteration, and the gain returned is \<open>K = (1)\<close>.
\<close>

theorem lqr_builds_riccati_witness:
  "pinv (ref_lib (\<lambda>p. [])) (mat_of_rows [[1]]) = Inr (mat_of_rows [[1]]) \<and>
   riccati_A \<lparr>F = mat_of_rows [[- 1]], G = mat_of_rows [[0]]\<rparr> (mat_of_rows [[1]]) (mat_of_rows [[1]])
     = Inr (mat_of_rows [[- 1]]) \<and>
   riccati_B \<lparr>F = mat_of_rows [[- 1]], G = mat_of_rows [[0]]\<rparr> (mat_of_rows [[1]])
     = Inr (mat_of_rows [[0]]) \<and>
   riccati_C (mat_of_rows [[- 1]]) (mat_of_rows [[1]]) (mat_of_rows [[1]]) = Inr (mat_of_rows [[0]]) \<and>
   care (ref_lib (\<lambda>p. [])) (mat_of_rows [[- 1]]) (mat_of_rows [[0]]) (mat_of_rows [[0]])
     = Inr (mat_of_rows [[0]], [Init_X0 [- 1], Err_step 0 2, Care_took 1]) \<and>
   care_equation (mat_of_rows [[- 1]]) (mat_of_rows [[0]]) (mat_of_rows [[0]]) (mat_of_rows [[0]])
     = Inr (mat_of_rows [[0]]) \<and>
   lqr_gain \<lparr>F = mat_of_rows [[- 1]], G = mat_of_rows [[0]]\<rparr> (mat_of_rows [[1]]) (mat_of_rows [[1]])
     (mat_of_rows [[0]]) = Inr (mat_of_rows [[1]]) \<and>
   lqr (ref_lib (\<lambda>p. [])) \<lparr>F = mat_of_rows [[- 1]], G = mat_of_rows [[0]]\<rparr>
      (mat_of_rows [[- 1]]) (mat_of_rows [[1]]) (mat_of_rows [[1]]) False =
     Inr (mat_of_rows [[1]],
          [Show_matrix ''A'' (mat_of_rows [[- 1]]), Show_matrix ''B'' (mat_of_rows [[0]]),
           Show_matrix ''C'' (mat_of_rows [[0]]), Init_X0 [- 1], Err_step 0 2, Care_took 1,
           Show_matrix ''CARE solution'' (mat_of_rows [[0]]), Show_matrix ''S'' (mat_of_rows [[0]])])"
proof -
  let ?L = "ref_lib (\<lambda>p. [])"
  let ?sys = "\<lparr>F = mat_of_rows [[- 1]], G = mat_of_rows [[0]]\<rparr>"
  let ?I = "mat_of_rows [[1]]" and ?N = "mat_of_rows [[- 1]]" and ?Z = "mat_of_rows [[0]]"
  let ?out = "[Show_matrix ''A'' ?N, Show_matrix ''B'' ?Z, Show_matrix ''C'' ?Z] @
      [Init_X0 [- 1], Err_step 0 2, Care_took 1] @
      [Show_matrix ''CARE solution'' ?Z, Show_matrix ''S'' ?Z]"
  have e1: "pinv ?L ?I = Inr ?I"
    by (rule pinv_ref_one)
  have e2: "riccati_A ?sys ?I ?I = Inr ?N"
    by code_simp
  have e3: "riccati_B ?sys ?I = Inr ?Z"
    by code_simp
  have e4: "riccati_C ?N ?I ?I = Inr ?Z"
    by code_simp
  note e5 = care_example
  have e6: "care_equation ?N ?Z ?Z ?Z = Inr ?Z"
    by code_simp
  have e7: "lqr_gain ?sys ?I ?I ?Z = Inr ?I"
    by code_simp
  have steps: "\<exists>invR A B C S cout res.
      pinv ?L ?I = Inr invR \<and> riccati_A ?sys ?I invR = Inr A \<and> riccati_B ?sys invR = Inr B \<and>
      riccati_C ?N ?I invR = Inr C \<and> care ?L A B C = Inr (S, cout) \<and>
      care_equation A B C S = Inr res \<and> lqr_gain ?sys ?I invR S = Inr ?I \<and>
      ?out = [Show_matrix ''A'' A, Show_matrix ''B'' B, Show_matrix ''C'' C] @ cout @
               [Show_matrix ''CARE solution'' res, Show_matrix ''S'' S]"
    by (intro exI conjI) (rule e1 e2 e3 e4 e5 e6 e7 refl)+
  have "lqr ?L ?sys ?N ?I ?I False = Inr (?I, ?out)"
    using lqr_builds_riccati[where check = False and L = ?L and sys = ?sys and Q = ?N and R = ?I
        and M = ?I and K = ?I and out = ?out] steps
    by simp
  then show ?thesis
    using e1 e2 e3 e4 e5 e6 e7 by simp
qed

text \<open>
  Claim C6. With \<open>check = true\<close> and an eigenvalue of \<open>Q - M * pinv(R) * M.transpose()\<close>
  whose real part is negative, \<open>lqr\<close> returns the empty matrix, and all it prints is that
  the positivity check failed: the solver of the Riccati equation is not run. With
  \<open>check = false\<close> the test is skipped and \<open>lqr\<close> is the synthesis; whenever the synthesis
  returns a gain, the solver has run (its line \<open>CARE took k iterations\<close> is printed) and
  the positivity line is not printed. The synthesis does not always return a gain, as the
  claim has it: it returns one for square matrices \<open>F\<close>, \<open>G\<close>, \<open>Q\<close>, \<open>R\<close>, \<open>M\<close> of one
  size \<open>n > 0\<close>, but for a square \<open>R\<close> and an \<open>M\<close> that is not square (the shapes of a
  system with fewer inputs than states) the product \<open>M * invR * M\<close> in the coefficient \<open>C\<close>
  is not defined, and \<open>lqr\<close> stops there. The library is taken to return factors of the
  documented shapes.
\<close>

theorem lqr_positivity_check:
  "(lqr_QR L Q R M = Inr QR \<and> (\<exists>z\<in>set (eigenvalues L QR). Re z < 0) \<longrightarrow>
      lqr L sys Q R M True = Inr (mat_empty, [Positivity_failed])) \<and>
   lqr L sys Q R M False = lqr_synthesis L sys Q R M \<and>
   (\<forall>K out. lqr_synthesis L sys Q R M = Inr (K, out) \<longrightarrow>
      (\<exists>k. Care_took k \<in> set out) \<and> Positivity_failed \<notin> set out) \<and>
   (lib_shapes L \<and> 0 < n \<and> is_mat n n (F sys) \<and> is_mat n n (G sys) \<and>
    is_mat n n Q \<and> is_mat n n R \<and> is_mat n n M \<longrightarrow>
      (\<exists>K out. lqr L sys Q R M False = Inr (K, out) \<and> is_mat n n K)) \<and>
   (lib_shapes L \<and> nrows R = ncols R \<and> nrows M \<noteq> ncols M \<longrightarrow>
      lqr L sys Q R M False = Inl DimMismatch)"
proof -
  have skip: "lqr L sys Q R M False = lqr_synthesis L sys Q R M"
    by (simp add: lqr_def)
  have "lqr L sys Q R M True = Inr (mat_empty, [Positivity_failed])"
    if "lqr_QR L Q R M = Inr QR" "\<exists>z\<in>set (eigenvalues L QR). Re z < 0"
    using lqr_check_QR[OF that] by (simp add: lqr_def)
  moreover have "(\<exists>k. Care_took k \<in> set out) \<and> Positivity_failed \<notin> set out"
    if "lqr_synthesis L sys Q R M = Inr (K, out)" for K out
    using that by (rule lqr_synthesis_msgs)
  moreover have "\<exists>K out. lqr L sys Q R M False = Inr (K, out) \<and> is_mat n n K"
    if "lib_shapes L" "0 < n" "is_mat n n (F sys)" "is_mat n n (G sys)"
      "is_mat n n Q" "is_mat n n R" "is_mat n n M"
    unfolding skip using that by (rule lqr_synthesis_square)
  moreover have "lqr L sys Q R M False = Inl DimMismatch"
    if "lib_shapes L" "nrows R = ncols R" "nrows M \<noteq> ncols M"
    unfolding skip using that by (rule lqr_synthesis_not_square)
  ultimately show ?thesis
    using skip by blast
qed

text \<open>
  The theorem at two inputs. At \<open>F = (-1)\<close>, \<open>G = (0)\<close>, \<open>Q = (-1)\<close>, \<open>R = (1)\<close>,
  \<open>M = (1)\<close>, where \<open>Q - M * pinv(R) * M.transpose() = (-2)\<close>: with the check the empty
  matrix is returned, without it the gain \<open>(1)\<close>. At the system of the specification with
  two states and one input, \<open>F = (0 1; -2 -3)\<close>, \<open>G = (0; 1)\<close>, \<open>Q\<close> the identity,
  \<open>R = (1)\<close> and \<open>M = (0; 0)\<close>: without the check no gain is returned, the product
  \<open>M * invR * M\<close> of a matrix with two rows and one column with itself is not defined.
\<close>

theorem lqr_positivity_check_witness:
  "lqr_QR (ref_lib (\<lambda>p. [])) (mat_of_rows [[- 1]]) (mat_of_rows [[1]]) (mat_of_rows [[1]])
     = Inr (mat_of_rows [[- 2]]) \<and>
   eigenvalues (ref_lib (\<lambda>p. [])) (mat_of_rows [[- 2]]) = [- 2] \<and>
   lib_shapes (ref_lib (\<lambda>p. [])) \<and>
   is_mat 1 1 (mat_of_rows [[- 1]]) \<and> is_mat 1 1 (mat_of_rows [[0]]) \<and>
   is_mat 1 1 (mat_of_rows [[1]]) \<and>
   lqr (ref_lib (\<lambda>p. [])) \<lparr>F = mat_of_rows [[- 1]], G = mat_of_rows [[0]]\<rparr>
      (mat_of_rows [[- 1]]) (mat_of_rows [[1]]) (mat_of_rows [[1]]) True =
     Inr (mat_empty, [Positivity_failed]) \<and>
   lqr (ref_lib (\<lambda>p. [])) \<lparr>F = mat_of_rows [[- 1]], G = mat_of_rows [[0]]\<rparr>
      (mat_of_rows [[- 1]]) (mat_of_rows [[1]]) (mat_of_rows [[1]]) False =
     Inr (mat_of_rows [[1]],
          [Show_matrix ''A'' (mat_of_rows [[- 1]]), Show_matrix ''B'' (mat_of_rows [[0]]),
           Show_matrix ''C'' (mat_of_rows [[0]]), Init_X0 [- 1], Err_step 0 2, Care_took 1,
           Show_matrix ''CARE solution'' (mat_of_rows [[0]]), Show_matrix ''S'' (mat_of_rows [[0]])]) \<and>
   nrows (mat_of_rows [[1 :: real]]) = 1 \<and> ncols (mat_of_rows [[1 :: real]]) = 1 \<and>
   nrows (mat_of_rows [[0 :: real], [0]]) = 2 \<and> ncols (mat_of_rows [[0 :: real], [0]]) = 1 \<and>
   lqr (ref_lib (\<lambda>p. [])) \<lparr>F = mat_of_rows [[0, 1], [- 2, - 3]], G = mat_of_rows [[0], [1]]\<rparr>
      (mat_of_rows [[1, 0], [0, 1]]) (mat_of_rows [[1]]) (mat_of_rows [[0], [0]]) False =
     Inl DimMismatch"
proof -
  let ?L = "ref_lib (\<lambda>p. [])"
  let ?sys = "\<lparr>F = mat_of_rows [[- 1]], G = mat_of_rows [[0]]\<rparr>"
  let ?I = "mat_of_rows [[1]]" and ?N = "mat_of_rows [[- 1]]" and ?Z = "mat_of_rows [[0]]"
  let ?sys2 = "\<lparr>F = mat_of_rows [[0, 1], [- 2, - 3]], G = mat_of_rows [[0], [1]]\<rparr>"
  let ?Q2 = "mat_of_rows [[1, 0], [0, 1]]" and ?M2 = "mat_of_rows [[0], [0]]"
  note t = lqr_positivity_check[of ?L ?N ?I ?I "mat_of_rows [[- 2]]" ?sys 1]
  note t2 = lqr_positivity_check[of ?L ?Q2 ?I ?M2 ?Q2 ?sys2 2]
  have qr: "lqr_QR ?L ?N ?I ?I = Inr (mat_of_rows [[- 2]])"
    by (rule lqr_QR_example)
  have ev: "eigenvalues ?L (mat_of_rows [[- 2]]) = [- 2]"
    by (simp add: ref_lib_def mat_of_rows_def coeff_def)
  have neg: "\<exists>z\<in>set (eigenvalues ?L (mat_of_rows [[- 2]])). Re z < 0"
    by (simp add: ev)
  have mats: "is_mat 1 1 ?N" "is_mat 1 1 ?Z" "is_mat 1 1 ?I"
    by (simp_all add: is_mat_rows)
  have L: "lib_shapes ?L"
    by (rule lib_shapes_ref_lib)
  have sh: "nrows (mat_of_rows [[1 :: real]]) = 1" "ncols (mat_of_rows [[1 :: real]]) = 1"
      "nrows (mat_of_rows [[0 :: real], [0]]) = 2" "ncols (mat_of_rows [[0 :: real], [0]]) = 1"
    by (simp_all add: mat_of_rows_def)
  have c1: "lqr ?L ?sys ?N ?I ?I True = Inr (mat_empty, [Positivity_failed])"
    using t qr neg by blast
  have "lqr ?L ?sys ?N ?I ?I False = lqr_synthesis ?L ?sys ?N ?I ?I"
    using t by blast
  then have c2: "lqr ?L ?sys ?N ?I ?I False =
     Inr (mat_of_rows [[1]],
          [Show_matrix ''A'' (mat_of_rows [[- 1]]), Show_matrix ''B'' (mat_of_rows [[0]]),
           Show_matrix ''C'' (mat_of_rows [[0]]), Init_X0 [- 1], Err_step 0 2, Care_took 1,
           Show_matrix ''CARE solution'' (mat_of_rows [[0]]), Show_matrix ''S'' (mat_of_rows [[0]])])"
    by (simp only: lqr_synthesis_example)
  have "nrows ?I = ncols ?I" "nrows ?M2 \<noteq> ncols ?M2"
    by (simp_all add: sh)
  then have c3: "lqr ?L ?sys2 ?Q2 ?I ?M2 False = Inl DimMismatch"
    using t2 L by blast
  show ?thesis
    by (intro conjI qr ev L mats c1 c2 sh c3)
qed

end
